theory Spec2Isabelle
  imports Complex_Main
begin

section \<open>Record model (product.h)\<close>

text \<open>
  The inventory manager keeps its products in a fixed array of \<open>Max\<close> = 1000 records
  together with a count of the records in use. C strings are modelled by their text (the
  characters before the terminating NUL), \<open>int\<close> by the mathematical integers and
  \<open>float\<close> by a type parameter \<open>'f\<close> whose arithmetic and text conversions are
  supplied by the platform (see \<open>float_ops\<close> below). The count is never negative in
  the program (it starts at 0, grows on a successful add or load and shrinks only after a
  successful search), so it is a natural number here.
\<close>

definition Max_c :: nat where
  "Max_c = 1000"

record 'f Prod =
  name :: string
  id_c :: string
  category :: string
  quantity :: int
  price :: 'f
  date :: string
  min_stock :: int

record 'f Invent =
  products :: "'f Prod list"
  product_count :: nat

datatype Change = ADD_PRODUCT | MODIFY_PRODUCT | DELETE_PRODUCT

text \<open>The records in use: \<open>products[0 .. product_count - 1]\<close>.\<close>

definition live :: "'f Invent \<Rightarrow> 'f Prod list" where
  "live iv = take (product_count iv) (products iv)"

text \<open>
  The invariant of the C representation: the array has \<open>Max\<close> slots and the count
  stays within it.
\<close>

definition wf_invent :: "'f Invent \<Rightarrow> bool" where
  "wf_invent iv \<longleftrightarrow> length (products iv) = Max_c \<and> product_count iv \<le> Max_c"

text \<open>\<open>init_invent\<close> only resets the count; the array keeps whatever it held.\<close>

definition init_invent :: "'f Invent \<Rightarrow> 'f Invent" where
  "init_invent iv = iv\<lparr>product_count := 0\<rparr>"

text \<open>
  \<open>products[product_count++] = p\<close>, the statement by which \<open>add_product\<close> and
  \<open>load_inventory\<close> store a record behind the last one in use.
\<close>

definition append_prod :: "'f Invent \<Rightarrow> 'f Prod \<Rightarrow> 'f Invent" where
  "append_prod iv p =
     iv\<lparr>products := (products iv)[product_count iv := p], product_count := Suc (product_count iv)\<rparr>"

definition is_low_stock :: "'f Prod \<Rightarrow> bool" where
  "is_low_stock p \<longleftrightarrow> quantity p \<le> min_stock p"

section \<open>Characters and numbers as text\<close>

definition newline :: char where
  "newline = CHR 0x0A"

definition NUL :: char where
  "NUL = CHR 0x00"

definition comma :: char where
  "comma = CHR '',''"

text \<open>\<open>isspace\<close> and \<open>isdigit\<close> of the C locale.\<close>

definition isspace :: "char \<Rightarrow> bool" where
  "isspace c \<longleftrightarrow> c \<in> set [CHR '' '', CHR 0x09, CHR 0x0A, CHR 0x0B, CHR 0x0C, CHR 0x0D]"

definition isdigit :: "char \<Rightarrow> bool" where
  "isdigit c \<longleftrightarrow> 48 \<le> (of_char c :: nat) \<and> (of_char c :: nat) \<le> 57"

definition digit_val :: "char \<Rightarrow> nat" where
  "digit_val c = of_char c - 48"

definition digit_chr :: "nat \<Rightarrow> char" where
  "digit_chr d = ''0123456789'' ! d"

text \<open>The decimal digits of a natural number, most significant first.\<close>

fun dec :: "nat \<Rightarrow> string" where
  "dec n = (if n < 10 then [digit_chr n] else dec (n div 10) @ [digit_chr (n mod 10)])"

declare dec.simps [simp del]

definition dec_val :: "string \<Rightarrow> nat" where
  "dec_val ds = foldl (\<lambda>a c. 10 * a + digit_val c) 0 ds"

text \<open>\<open>printf("%d", k)\<close>.\<close>

definition printf_d :: "int \<Rightarrow> string" where
  "printf_d k = (if k < 0 then CHR ''-'' # dec (nat (- k)) else dec (nat k))"

text \<open>\<open>printf("%0wd", k)\<close>: the sign counts towards the width, zeros fill the rest.\<close>

definition zero_pad :: "nat \<Rightarrow> string \<Rightarrow> string" where
  "zero_pad w s = replicate (w - length s) (CHR ''0'') @ s"

definition printf_0d :: "nat \<Rightarrow> int \<Rightarrow> string" where
  "printf_0d w k =
     (if k < 0 then CHR ''-'' # zero_pad (w - 1) (dec (nat (- k))) else zero_pad w (dec (nat k)))"

text \<open>The values of a 32-bit \<open>int\<close>.\<close>

definition in_int :: "int \<Rightarrow> bool" where
  "in_int k \<longleftrightarrow> - (2 ^ 31) \<le> k \<and> k \<le> 2 ^ 31 - 1"

text \<open>
  The conversion \<open>%d\<close> of the scanf family on the remaining input: white space is
  skipped, an optional sign and then at least one digit are consumed. A failed conversion
  stores nothing; the input stays where the match stopped. The result carries the number
  that the digits denote. When that number is outside \<open>int\<close> the conversion is undefined
  in C (the C library at hand stores some other value); the callers that read numbers of
  unbounded length from a file test the range with \<open>in_int\<close> and stop with \<open>None\<close>
  there (see \<open>load_loop\<close>).
\<close>

definition scan_d :: "string \<Rightarrow> int option \<times> string" where
  "scan_d s =
     (let s0 = dropWhile isspace s;
          neg = (take 1 s0 = ''-'');
          s1 = (if take 1 s0 = ''-'' \<or> take 1 s0 = ''+'' then drop 1 s0 else s0);
          ds = takeWhile isdigit s1
      in if ds = [] then (None, s1)
         else (Some (if neg then - int (dec_val ds) else int (dec_val ds)), drop (length ds) s1))"

text \<open>\<open>atoi\<close>: the value \<open>%d\<close> would read, 0 when there is none.\<close>

definition atoi :: "string \<Rightarrow> int" where
  "atoi s = (case fst (scan_d s) of Some v \<Rightarrow> v | None \<Rightarrow> 0)"

text \<open>
  What a variable holds after a conversion: the value stored, or what it held before when
  the conversion stored nothing.
\<close>

definition stored :: "'a option \<Rightarrow> 'a \<Rightarrow> 'a" where
  "stored r held = (case r of Some v \<Rightarrow> v | None \<Rightarrow> held)"

section \<open>Floating point as a parameter\<close>

text \<open>
  The price is a C \<open>float\<close>. Its arithmetic, its comparison with zero and its conversions
  to and from text belong to the platform, so the model takes them as a record of
  operations over the type \<open>'f\<close>:
  \<^item> \<open>f_zero\<close> is \<open>0.0\<close>, \<open>f_of_int\<close> the conversion from \<open>int\<close>;
  \<^item> \<open>f_add\<close>, \<open>f_mul\<close>, \<open>f_div\<close> are \<open>+\<close>, \<open>*\<close>, \<open>/\<close> on floats;
  \<^item> \<open>f_ge0 x\<close> is \<open>x >= 0\<close>;
  \<^item> \<open>f_printf2\<close> is the text \<open>printf("%.2f", x)\<close> writes;
  \<^item> \<open>f_scanf\<close> is the conversion \<open>%f\<close> on input whose leading white space has been
    skipped: the value stored (if the conversion matched) and the input left over;
  \<^item> \<open>f_val x\<close> is the real number that the finite float \<open>x\<close> stands for.
\<close>

record 'f float_ops =
  f_zero :: 'f
  f_of_int :: "int \<Rightarrow> 'f"
  f_add :: "'f \<Rightarrow> 'f \<Rightarrow> 'f"
  f_mul :: "'f \<Rightarrow> 'f \<Rightarrow> 'f"
  f_div :: "'f \<Rightarrow> 'f \<Rightarrow> 'f"
  f_ge0 :: "'f \<Rightarrow> bool"
  f_printf2 :: "'f \<Rightarrow> string"
  f_scanf :: "string \<Rightarrow> 'f option \<times> string"
  f_val :: "'f \<Rightarrow> real"

definition scan_f :: "'f float_ops \<Rightarrow> string \<Rightarrow> 'f option \<times> string" where
  "scan_f ops s = f_scanf ops (dropWhile isspace s)"

text \<open>
  An exact decimal arithmetic in hundredths of a currency unit. It instantiates the
  parameter wherever a concrete computation is carried out below. \<open>centi_printf2 k\<close> is
  the decimal numeral with two fraction digits for \<open>k\<close> hundredths, \<open>centi_scanf\<close> reads
  such a numeral back.
\<close>

definition centi_printf2 :: "int \<Rightarrow> string" where
  "centi_printf2 x =
     (if x < 0 then ''-'' else []) @ dec (nat \<bar>x\<bar> div 100) @ ''.'' @ zero_pad 2 (dec (nat \<bar>x\<bar> mod 100))"

definition centi_scanf :: "string \<Rightarrow> int option \<times> string" where
  "centi_scanf s =
     (let neg = (take 1 s = ''-'');
          s1 = (if take 1 s = ''-'' \<or> take 1 s = ''+'' then drop 1 s else s);
          ip = takeWhile isdigit s1;
          r = drop (length ip) s1;
          fp = takeWhile isdigit (drop 1 r);
          v = (if take 1 r = ''.'' then int (dec_val ip * 100 + dec_val (take 2 (fp @ ''00'')))
               else int (dec_val ip * 100))
      in if ip = [] then (None, s1)
         else (Some (if neg then - v else v), if take 1 r = ''.'' then drop (length fp) (drop 1 r) else r))"

definition centi_ops :: "int float_ops" where
  "centi_ops = \<lparr> f_zero = 0, f_of_int = (\<lambda>k. 100 * k), f_add = (\<lambda>a b. a + b),
      f_mul = (\<lambda>a b. a * b div 100), f_div = (\<lambda>a b. if b = 0 then 0 else a * 100 div b),
      f_ge0 = (\<lambda>x. 0 \<le> x), f_printf2 = centi_printf2, f_scanf = centi_scanf,
      f_val = (\<lambda>x. real_of_int x / 100) \<rparr>"

text \<open>The number of hundredths that a decimal numeral denotes.\<close>

definition text_cents :: "string \<Rightarrow> int" where
  "text_cents t = stored (fst (centi_scanf t)) 0"

section \<open>Files, console and clock\<close>

text \<open>
  The program talks to two text files (\<open>data.txt\<close>, the store, and \<open>inventory.txt\<close>, the
  change log), to standard input and output and to the clock. A file is its content, or
  \<open>None\<close> when it does not exist; whether it can be opened for writing is a flag of the
  environment. \<open>messages\<close> collects the status messages printed (the tables and prompts that
  \<open>modify_product\<close> and \<open>delete_product\<close> draw, and the screen clearing, are not
  recorded). \<open>now\<close> is the broken-down local time that \<open>localtime(time(NULL))\<close> yields.
\<close>

record tm =
  tm_year :: int
  tm_mon :: int
  tm_mday :: int
  tm_hour :: int
  tm_min :: int
  tm_sec :: int

record world =
  data_file :: "string option"
  log_file :: "string option"
  data_writable :: bool
  log_writable :: bool
  stdin :: string
  messages :: "string list"
  now :: tm

definition printf_msg :: "string \<Rightarrow> world \<Rightarrow> world" where
  "printf_msg s w = w\<lparr>messages := messages w @ [s]\<rparr>"

text \<open>
  \<open>fgets(buf, n, f)\<close>: at most \<open>n - 1\<close> characters, stopping after a newline; \<open>None\<close> at
  end of file. The result is the text read and the rest of the file.
\<close>

definition fgets :: "nat \<Rightarrow> string \<Rightarrow> (string \<times> string) option" where
  "fgets n s =
     (if s = [] then None
      else let win = take (n - 1) s;
               pre = takeWhile (\<lambda>c. c \<noteq> newline) win;
               k = (if length pre < length win then Suc (length pre) else length pre)
           in Some (take k s, drop k s))"

text \<open>A buffer read as a C string ends at its first NUL.\<close>

definition c_str :: "string \<Rightarrow> string" where
  "c_str buf = takeWhile (\<lambda>c. c \<noteq> NUL) buf"

text \<open>The scanf conversions used on standard input.\<close>

definition scanf_s :: "nat \<Rightarrow> string \<Rightarrow> string option \<times> string" where
  "scanf_s width s =
     (let s0 = dropWhile isspace s;
          tok = takeWhile (\<lambda>c. \<not> isspace c) (take width s0)
      in if s0 = [] then (None, s0) else (Some tok, drop (length tok) s0))"

definition scanf_c :: "string \<Rightarrow> char option \<times> string" where
  "scanf_c s = (case dropWhile isspace s of [] \<Rightarrow> (None, []) | c # r \<Rightarrow> (Some c, r))"

text \<open>
  \<open>strftime(timestamp, 20, "%Y-%m-%d %H:%M:%S", t)\<close>. When the text and its NUL do not fit
  the 20 bytes, the array is left indeterminate; the model yields the empty text there
  and nothing below relies on it.
\<close>

definition timestamp_text :: "tm \<Rightarrow> string" where
  "timestamp_text t =
     printf_d (tm_year t + 1900) @ ''-'' @ printf_0d 2 (tm_mon t + 1) @ ''-'' @ printf_0d 2 (tm_mday t)
     @ '' '' @ printf_0d 2 (tm_hour t) @ '':'' @ printf_0d 2 (tm_min t) @ '':'' @ printf_0d 2 (tm_sec t)"

definition strftime_20 :: "tm \<Rightarrow> string" where
  "strftime_20 t = (if length (timestamp_text t) < 20 then timestamp_text t else [])"

definition wf_tm :: "tm \<Rightarrow> bool" where
  "wf_tm t \<longleftrightarrow> 1000 \<le> tm_year t + 1900 \<and> tm_year t + 1900 \<le> 9999 \<and> 0 \<le> tm_mon t \<and> tm_mon t \<le> 11
     \<and> 1 \<le> tm_mday t \<and> tm_mday t \<le> 31 \<and> 0 \<le> tm_hour t \<and> tm_hour t \<le> 23
     \<and> 0 \<le> tm_min t \<and> tm_min t \<le> 59 \<and> 0 \<le> tm_sec t \<and> tm_sec t \<le> 60"

definition digits :: "nat \<Rightarrow> string \<Rightarrow> bool" where
  "digits k s \<longleftrightarrow> length s = k \<and> list_all isdigit s"

section \<open>Persistence (file.c)\<close>

text \<open>One record as \<open>fprintf(f, "%s,%s,%s,%d,%.2f,%d,%s\n", ...)\<close> writes it.\<close>

definition price_tail :: "'f Prod \<Rightarrow> string" where
  "price_tail p = [comma] @ printf_d (min_stock p) @ [comma] @ date p"

definition store_fields :: "'f float_ops \<Rightarrow> 'f Prod \<Rightarrow> string" where
  "store_fields ops p =
     name p @ [comma] @ id_c p @ [comma] @ category p @ [comma] @ printf_d (quantity p) @ [comma]
     @ f_printf2 ops (price p) @ price_tail p"

definition store_line :: "'f float_ops \<Rightarrow> 'f Prod \<Rightarrow> string" where
  "store_line ops p = store_fields ops p @ [newline]"

definition save_inventory :: "'f float_ops \<Rightarrow> 'f Invent \<Rightarrow> world \<Rightarrow> int \<times> world" where
  "save_inventory ops iv w =
     (if \<not> data_writable w then (0, printf_msg (''Error: cannot save inventory.'' @ [newline]) w)
      else (1, w\<lparr>data_file := Some (concat (map (store_line ops) (live iv)))\<rparr>))"

text \<open>
  The conversions of \<open>sscanf(line, "%49[^,],%9[^,],%29[^,],%d,%f,%d,%10[^,\n]", ...)\<close>.
  A scanset \<open>%w[...]\<close> takes the longest run of at most \<open>w\<close> admitted characters and fails
  on an empty run; a literal character of the format must be the next input character.
\<close>

definition scanset :: "nat \<Rightarrow> (char \<Rightarrow> bool) \<Rightarrow> string \<Rightarrow> (string \<times> string) option" where
  "scanset width ok s =
     (let tok = takeWhile ok (take width s)
      in if tok = [] then None else Some (tok, drop (length tok) s))"

definition literal :: "char \<Rightarrow> string \<Rightarrow> string option" where
  "literal c s = (case s of [] \<Rightarrow> None | x # r \<Rightarrow> if x = c then Some r else None)"

definition conv :: "'a option \<times> string \<Rightarrow> ('a \<times> string) option" where
  "conv r = (case fst r of None \<Rightarrow> None | Some v \<Rightarrow> Some (v, snd r))"

text \<open>
  \<open>sscanf_prod ops line\<close> is \<open>Some p\<close> exactly when the call returns 7, that is when all
  seven conversions matched; \<open>p\<close> is the record they filled, with the numbers that the
  digits of the two \<open>%d\<close> fields denote. Input after the seventh field is not looked at.
\<close>

definition sscanf_prod :: "'f float_ops \<Rightarrow> string \<Rightarrow> 'f Prod option" where
  "sscanf_prod ops line =
     Option.bind (scanset 49 (\<lambda>c. c \<noteq> comma) line) (\<lambda>(nm, r1).
     Option.bind (literal comma r1) (\<lambda>r2.
     Option.bind (scanset 9 (\<lambda>c. c \<noteq> comma) r2) (\<lambda>(ident, r3).
     Option.bind (literal comma r3) (\<lambda>r4.
     Option.bind (scanset 29 (\<lambda>c. c \<noteq> comma) r4) (\<lambda>(cat, r5).
     Option.bind (literal comma r5) (\<lambda>r6.
     Option.bind (conv (scan_d r6)) (\<lambda>(q, r7).
     Option.bind (literal comma r7) (\<lambda>r8.
     Option.bind (conv (scan_f ops r8)) (\<lambda>(pr, r9).
     Option.bind (literal comma r9) (\<lambda>r10.
     Option.bind (conv (scan_d r10)) (\<lambda>(ms, r11).
     Option.bind (literal comma r11) (\<lambda>r12.
     Option.bind (scanset 10 (\<lambda>c. c \<noteq> comma \<and> c \<noteq> newline) r12) (\<lambda>(dt, r13).
     Some \<lparr> name = nm, id_c = ident, category = cat, quantity = q, price = pr,
            date = dt, min_stock = ms \<rparr>)))))))))))))"

text \<open>\<open>line[strcspn(line, "\n")] = '\0'\<close>: the C string now ends before the newline.\<close>

definition strip_newline :: "string \<Rightarrow> string" where
  "strip_newline buf = takeWhile (\<lambda>c. c \<noteq> newline) (c_str buf)"

text \<open>
  The reading loop of \<open>load_inventory\<close>:
  \<open>while (fgets(line, 256, f) && product_count < Max)\<close>. The two \<open>%d\<close> conversions
  store into \<open>int\<close> fields: on a line that matches with a quantity or a threshold outside
  \<open>int\<close> the behaviour is undefined in C, and the loop of the model stops with \<open>None\<close>.
\<close>

definition ints_stored :: "'f Prod \<Rightarrow> bool" where
  "ints_stored p \<longleftrightarrow> in_int (quantity p) \<and> in_int (min_stock p)"

function load_loop :: "'f float_ops \<Rightarrow> string \<Rightarrow> 'f Invent \<Rightarrow> 'f Invent option" where
  "load_loop ops content iv =
     (case fgets 256 content of
        None \<Rightarrow> Some iv
      | Some (line, rest) \<Rightarrow>
          if product_count iv < Max_c then
            (case sscanf_prod ops (strip_newline line) of
               Some p \<Rightarrow> if ints_stored p then load_loop ops rest (append_prod iv p) else None
             | None \<Rightarrow> load_loop ops rest iv)
          else Some iv)"
  by pat_completeness auto
termination
proof -
  have shrink: "length rest < length content"
    if "fgets 256 content = Some (line, rest)" for content line rest
  proof -
    define win where "win = take 255 content"
    define pre where "pre = takeWhile (\<lambda>c. c \<noteq> newline) win"
    define k where "k = (if length pre < length win then Suc (length pre) else length pre)"
    have ne: "content \<noteq> []" using that by (auto simp: fgets_def)
    then have "win \<noteq> []" by (simp add: win_def)
    moreover have "length pre \<le> length win" by (simp add: pre_def length_takeWhile_le)
    ultimately have "0 < k" by (auto simp: k_def)
    moreover have "rest = drop k content"
      using that ne unfolding fgets_def Let_def win_def pre_def k_def by (auto split: if_splits)
    ultimately show ?thesis using ne by simp
  qed
  show ?thesis
    by (relation "measure (\<lambda>(ops, content, iv). length content)") (auto dest: shrink)
qed

declare load_loop.simps [simp del]

text \<open>
  \<open>load_inventory\<close>: the return value and the inventory, or \<open>None\<close> when the loop ran
  into a number outside \<open>int\<close>.
\<close>

definition load_inventory :: "'f float_ops \<Rightarrow> 'f Invent \<Rightarrow> world \<Rightarrow> (int \<times> 'f Invent) option" where
  "load_inventory ops iv w =
     (case data_file w of
        None \<Rightarrow> Some (0, iv)
      | Some content \<Rightarrow>
          (case load_loop ops content (iv\<lparr>product_count := 0\<rparr>) of
             None \<Rightarrow> None
           | Some iv' \<Rightarrow> Some (1, iv')))"

text \<open>
  The lines of a text: the pieces between newlines. A final piece without a newline is a
  line, an empty piece after the last newline is not.
\<close>

function lines_of :: "string \<Rightarrow> string list" where
  "lines_of s =
     (if s = [] then []
      else takeWhile (\<lambda>c. c \<noteq> newline) s # lines_of (drop 1 (dropWhile (\<lambda>c. c \<noteq> newline) s)))"
  by pat_completeness auto
termination
proof (relation "measure length")
  show "wf (measure length)" by simp
next
  fix s :: string
  assume "s \<noteq> []"
  then have pos: "0 < length s" by simp
  have le: "length (dropWhile (\<lambda>c. c \<noteq> newline) s) \<le> length s"
    by (rule length_dropWhile_le)
  have "length (drop 1 (dropWhile (\<lambda>c. c \<noteq> newline) s))
          = length (dropWhile (\<lambda>c. c \<noteq> newline) s) - 1"
    by simp
  with le pos have "length (drop 1 (dropWhile (\<lambda>c. c \<noteq> newline) s)) < length s"
    by arith
  then show "(drop 1 (dropWhile (\<lambda>c. c \<noteq> newline) s), s) \<in> measure length"
    by simp
qed

declare lines_of.simps [simp del]

text \<open>The pieces that successive calls \<open>fgets(buf, 256, f)\<close> return until end of file.\<close>

function fgets_all :: "string \<Rightarrow> string list" where
  "fgets_all content =
     (case fgets 256 content of None \<Rightarrow> [] | Some (line, rest) \<Rightarrow> line # fgets_all rest)"
  by pat_completeness auto
termination
proof -
  have shrink: "length rest < length content"
    if "fgets 256 content = Some (line, rest)" for content line rest
  proof -
    define win where "win = take 255 content"
    define pre where "pre = takeWhile (\<lambda>c. c \<noteq> newline) win"
    define k where "k = (if length pre < length win then Suc (length pre) else length pre)"
    have ne: "content \<noteq> []" using that by (auto simp: fgets_def)
    then have "win \<noteq> []" by (simp add: win_def)
    moreover have "length pre \<le> length win" by (simp add: pre_def length_takeWhile_le)
    ultimately have "0 < k" by (auto simp: k_def)
    moreover have "rest = drop k content"
      using that ne unfolding fgets_def Let_def win_def pre_def k_def by (auto split: if_splits)
    ultimately show ?thesis using ne by simp
  qed
  show ?thesis
    by (relation "measure length") (auto dest: shrink)
qed

declare fgets_all.simps [simp del]

text \<open>
  What the load operation is said to do, in the words of its description: go through the
  store line by line, keep the lines on which the seven fields parse, in order, and stop at
  the capacity.
\<close>

definition load_by_lines :: "'f float_ops \<Rightarrow> string \<Rightarrow> 'f Prod list" where
  "load_by_lines ops content =
     take Max_c (List.map_filter (\<lambda>l. sscanf_prod ops (c_str l)) (lines_of content))"

text \<open>
  A line of the store whose numbers can be stored: if the seven fields parse, the quantity
  and the threshold are within \<open>int\<close>.
\<close>

definition ints_ok :: "'f float_ops \<Rightarrow> string \<Rightarrow> bool" where
  "ints_ok ops l = (case sscanf_prod ops l of None \<Rightarrow> True | Some p \<Rightarrow> ints_stored p)"

text \<open>
  The expected types and field widths: a record that fits the \<open>Product\<close> structure, with a
  non-empty name, id, category and date that leave room for the terminating NUL in
  \<open>name[50]\<close>, \<open>id[10]\<close>, \<open>category[30]\<close> and \<open>date[11]\<close> and hold no delimiter, and
  with numbers within \<open>int\<close>.
\<close>

definition text_field :: "nat \<Rightarrow> string \<Rightarrow> bool" where
  "text_field width s \<longleftrightarrow> s \<noteq> [] \<and> length s \<le> width \<and> comma \<notin> set s"

definition fits_prod :: "'f Prod \<Rightarrow> bool" where
  "fits_prod p \<longleftrightarrow>
     text_field 49 (name p) \<and> text_field 9 (id_c p) \<and> text_field 29 (category p)
     \<and> text_field 10 (date p) \<and> newline \<notin> set (date p) \<and> ints_stored p"

text \<open>
  Records that survive the store format. The format has no escaping, so a text field must
  be non-empty, fit its width and be free of the comma (and of the newline that ends the
  record); the quantity and the threshold are values of \<open>int\<close>.

  The price goes through the two conversions of the C library. \<open>price_ok ops e p\<close> states
  what is expected of them at the price of \<open>p\<close>: \<open>%.2f\<close> writes the two-decimal numeral
  of the price rounded to hundredths (at most 48 characters, which holds for every finite
  \<open>float\<close>), and \<open>%f\<close> consumes exactly that numeral from the line and stores a float
  within \<open>e\<close> of the number it denotes.
\<close>

definition field_ok :: "nat \<Rightarrow> string \<Rightarrow> bool" where
  "field_ok width s \<longleftrightarrow>
     s \<noteq> [] \<and> length s \<le> width \<and> comma \<notin> set s \<and> newline \<notin> set s \<and> NUL \<notin> set s"

definition price_ok :: "'f float_ops \<Rightarrow> real \<Rightarrow> 'f Prod \<Rightarrow> bool" where
  "price_ok ops e p \<longleftrightarrow>
     (let t = f_printf2 ops (price p); k = text_cents t
      in t = centi_printf2 k \<and> length t \<le> 48
         \<and> \<bar>real_of_int k / 100 - f_val ops (price p)\<bar> \<le> 1 / 200
         \<and> (case scan_f ops (t @ price_tail p) of
               (None, r) \<Rightarrow> False
             | (Some y, r) \<Rightarrow> r = price_tail p \<and> \<bar>f_val ops y - real_of_int k / 100\<bar> \<le> e))"

definition storable :: "'f float_ops \<Rightarrow> real \<Rightarrow> 'f Prod \<Rightarrow> bool" where
  "storable ops e p \<longleftrightarrow>
     field_ok 49 (name p) \<and> field_ok 9 (id_c p) \<and> field_ok 29 (category p) \<and> field_ok 10 (date p)
     \<and> ints_stored p \<and> price_ok ops e p"

text \<open>The record as it comes back: every field as stored, the price as \<open>%f\<close> reads its text.\<close>

definition reread :: "'f float_ops \<Rightarrow> 'f Prod \<Rightarrow> 'f Prod" where
  "reread ops p =
     p\<lparr>price := stored (fst (scan_f ops (f_printf2 ops (price p) @ price_tail p))) (price p)\<rparr>"

text \<open>
  What the round trip is said to reproduce: \<open>same_fields ops d p p'\<close> holds when \<open>p'\<close>
  has the name, id, category, quantity, threshold and date of \<open>p\<close> and a price within
  \<open>d\<close> of the price of \<open>p\<close>.
\<close>

definition same_fields :: "'f float_ops \<Rightarrow> real \<Rightarrow> 'f Prod \<Rightarrow> 'f Prod \<Rightarrow> bool" where
  "same_fields ops d p p' \<longleftrightarrow>
     name p' = name p \<and> id_c p' = id_c p \<and> category p' = category p \<and> quantity p' = quantity p
     \<and> min_stock p' = min_stock p \<and> date p' = date p
     \<and> \<bar>f_val ops (price p') - f_val ops (price p)\<bar> \<le> d"

section \<open>Change log\<close>

definition log_entry_full :: "'f float_ops \<Rightarrow> string \<Rightarrow> string \<Rightarrow> 'f Prod \<Rightarrow> string" where
  "log_entry_full ops ts action p =
     ''['' @ ts @ ''] '' @ action @ '': '' @ name p @ '' (ID: '' @ id_c p @ '', Qty: ''
     @ printf_d (quantity p) @ '', Price: '' @ f_printf2 ops (price p) @ '')'' @ [newline]"

definition log_entry_short :: "string \<Rightarrow> string \<Rightarrow> 'f Prod \<Rightarrow> string" where
  "log_entry_short ts action p =
     ''['' @ ts @ ''] '' @ action @ '': '' @ name p @ '' (ID: '' @ id_c p @ '')'' @ [newline]"

definition action_name :: "Change \<Rightarrow> string" where
  "action_name change =
     (if change = ADD_PRODUCT then ''ADDED''
      else if change = MODIFY_PRODUCT then ''MODIFIED'' else ''DELETED'')"

text \<open>The text the \<open>fprintf\<close> branches of \<open>log_inventory_change\<close> write; empty when none applies.\<close>

definition log_text ::
  "'f float_ops \<Rightarrow> string \<Rightarrow> Change \<Rightarrow> 'f Prod option \<Rightarrow> 'f Prod option \<Rightarrow> string" where
  "log_text ops ts change before_p after_p =
     (case (change, before_p, after_p) of
        (ADD_PRODUCT, _, Some a) \<Rightarrow> log_entry_full ops ts (action_name change) a
      | (DELETE_PRODUCT, Some b, _) \<Rightarrow> log_entry_full ops ts (action_name change) b
      | (MODIFY_PRODUCT, Some b, Some a) \<Rightarrow> log_entry_short ts (action_name change) a
      | _ \<Rightarrow> [])"

text \<open>\<open>fopen(LOG_FILE, "a")\<close> creates the file when it is missing; a failure to open is swallowed.\<close>

definition log_inventory_change ::
  "'f float_ops \<Rightarrow> Change \<Rightarrow> 'f Prod option \<Rightarrow> 'f Prod option \<Rightarrow> world \<Rightarrow> world" where
  "log_inventory_change ops change before_p after_p w =
     (if \<not> log_writable w then w
      else w\<lparr>log_file := Some ((case log_file w of None \<Rightarrow> [] | Some old \<Rightarrow> old)
                 @ log_text ops (strftime_20 (now w)) change before_p after_p)\<rparr>)"

text \<open>The text of the log before a call; empty when the file does not exist yet.\<close>

definition log_old :: "world \<Rightarrow> string" where
  "log_old w = (case log_file w of None \<Rightarrow> [] | Some old \<Rightarrow> old)"

text \<open>
  \<open>display_recent_changes\<close> (display.c). The reading loop is
  \<open>while (fgets(lines[total], 256, f) && total < 100) total++\<close> over \<open>char lines[100][256]\<close>.
  With 100 lines stored the loop calls \<open>fgets\<close> once more, on \<open>lines[100]\<close>, before it tests
  the bound; that write lies outside the array and is not part of the model, which drops
  the text read there.
\<close>

function read_log :: "string \<Rightarrow> string list \<Rightarrow> string list" where
  "read_log content lines =
     (case fgets 256 content of
        None \<Rightarrow> lines
      | Some (l, rest) \<Rightarrow> if length lines < 100 then read_log rest (lines @ [l]) else lines)"
  by pat_completeness auto
termination
proof -
  have shrink: "length rest < length content"
    if "fgets 256 content = Some (line, rest)" for content line rest
  proof -
    define win where "win = take 255 content"
    define pre where "pre = takeWhile (\<lambda>c. c \<noteq> newline) win"
    define k where "k = (if length pre < length win then Suc (length pre) else length pre)"
    have ne: "content \<noteq> []" using that by (auto simp: fgets_def)
    then have "win \<noteq> []" by (simp add: win_def)
    moreover have "length pre \<le> length win" by (simp add: pre_def length_takeWhile_le)
    ultimately have "0 < k" by (auto simp: k_def)
    moreover have "rest = drop k content"
      using that ne unfolding fgets_def Let_def win_def pre_def k_def by (auto split: if_splits)
    ultimately show ?thesis using ne by simp
  qed
  show ?thesis
    by (relation "measure (\<lambda>(content, lines). length content)") (auto dest: shrink)
qed

declare read_log.simps [simp del]

text \<open>The lines printed by \<open>for (i = start; i < total; i++) printf("%s", lines[i])\<close>.\<close>

definition recent_lines :: "int \<Rightarrow> string \<Rightarrow> string list" where
  "recent_lines count content =
     (let lines = read_log content [];
          total = int (length lines);
          start = (if total > count then total - count else 0)
      in map c_str (drop (nat start) lines))"

definition display_recent_changes :: "int \<Rightarrow> world \<Rightarrow> world" where
  "display_recent_changes count w =
     (case log_file w of
        None \<Rightarrow> printf_msg (newline # ''No history available.'' @ [newline]) w
      | Some content \<Rightarrow>
          w\<lparr>messages := messages w
               @ [newline # ''=== RECENT CHANGES (Last '' @ printf_d count @ '') ==='' @ [newline, newline]]
               @ recent_lines count content\<rparr>)"

section \<open>Search, add, modify and delete (modification.c)\<close>

text \<open>
  \<open>search_product_by_id\<close>: a linear scan over the records in use; the index of the first
  record whose id compares equal under \<open>strcmp\<close>, or -1.
\<close>

fun search_from :: "nat \<Rightarrow> 'f Prod list \<Rightarrow> string \<Rightarrow> int" where
  "search_from i [] ident = -1"
| "search_from i (p # ps) ident = (if id_c p = ident then int i else search_from (Suc i) ps ident)"

definition search_product_by_id :: "'f Invent \<Rightarrow> string \<Rightarrow> int" where
  "search_product_by_id iv ident = search_from 0 (live iv) ident"

definition msg_full :: string where
  "msg_full = newline # ''Error: Inventory is full.'' @ [newline]"

definition msg_duplicate :: string where
  "msg_duplicate = newline # ''Error: A product with this ID already exists.'' @ [newline]"

definition msg_added :: string where
  "msg_added = newline # ''Product added successfully!'' @ [newline]"

definition msg_not_found :: string where
  "msg_not_found = newline # ''Error: Product not found.'' @ [newline]"

definition msg_modified :: string where
  "msg_modified = newline # ''Product modified successfully!'' @ [newline]"

definition msg_cancelled :: string where
  "msg_cancelled = ''Deletion cancelled.'' @ [newline]"

definition msg_deleted :: string where
  "msg_deleted = newline # ''Product deleted successfully!'' @ [newline]"

definition add_product ::
  "'f float_ops \<Rightarrow> 'f Invent \<Rightarrow> 'f Prod \<Rightarrow> world \<Rightarrow> int \<times> 'f Invent \<times> world" where
  "add_product ops iv p w =
     (if product_count iv \<ge> Max_c then (0, iv, printf_msg msg_full w)
      else if search_product_by_id iv (id_c p) \<noteq> -1 then (0, iv, printf_msg msg_duplicate w)
      else let iv' = append_prod iv p;
               w1 = log_inventory_change ops ADD_PRODUCT None (Some p) w;
               w2 = snd (save_inventory ops iv' w1)
           in (1, iv', printf_msg msg_added w2))"

text \<open>
  The locals of \<open>modify_product\<close> and \<open>delete_product\<close> that scanf fills are not
  initialised. When a conversion stores nothing (end of input, or text that does not
  match) the variable keeps what it held: for \<open>buffer\<close> at the category prompt the name
  just read, otherwise an indeterminate value, which the model takes as a parameter.
\<close>

record 'f junk =
  j_buffer :: string
  j_qty :: int
  j_price :: 'f
  j_threshold :: int
  j_confirm :: char

text \<open>
  The five prompts of \<open>modify_product\<close>, applied to the record being edited: each reads
  its entry from standard input and overwrites the field when the value read passes the
  test (a non-empty buffer, a non-negative number). The result is the record and the
  remaining input.
\<close>

definition edit_fields :: "'f float_ops \<Rightarrow> 'f Prod \<Rightarrow> string \<Rightarrow> 'f junk \<Rightarrow> 'f Prod \<times> string" where
  "edit_fields ops original input j =
     (let (r1, in1) = scanf_s 49 input;
          buffer1 = stored r1 (j_buffer j);
          p1 = (if length buffer1 > 0 then original\<lparr>name := buffer1\<rparr> else original);
          (r2, in2) = scanf_s 29 in1;
          buffer2 = stored r2 buffer1;
          p2 = (if length buffer2 > 0 then p1\<lparr>category := buffer2\<rparr> else p1);
          (r3, in3) = scan_d in2;
          qty = stored r3 (j_qty j);
          p3 = (if qty \<ge> 0 then p2\<lparr>quantity := qty\<rparr> else p2);
          (r4, in4) = scan_f ops in3;
          price_in = stored r4 (j_price j);
          p4 = (if f_ge0 ops price_in then p3\<lparr>price := price_in\<rparr> else p3);
          (r5, in5) = scan_d in4;
          threshold = stored r5 (j_threshold j);
          p5 = (if threshold \<ge> 0 then p4\<lparr>min_stock := threshold\<rparr> else p4)
      in (p5, in5))"

definition modify_product ::
  "'f float_ops \<Rightarrow> 'f Invent \<Rightarrow> string \<Rightarrow> world \<Rightarrow> 'f junk \<Rightarrow> int \<times> 'f Invent \<times> world" where
  "modify_product ops iv ident w j =
     (let index = search_product_by_id iv ident
      in if index = -1 then (0, iv, printf_msg msg_not_found w)
         else
           let original = products iv ! nat index;
               (edited, in5) = edit_fields ops original (stdin w) j;
               iv' = iv\<lparr>products := (products iv)[nat index := edited]\<rparr>;
               w1 = log_inventory_change ops MODIFY_PRODUCT (Some original) (Some edited) (w\<lparr>stdin := in5\<rparr>);
               w2 = snd (save_inventory ops iv' w1)
           in (1, iv', printf_msg msg_modified w2))"

text \<open>
  The shifting loop of \<open>delete_product\<close>:
  \<open>for (i = index; i < product_count - 1; i++) products[i] = products[i + 1]\<close>.
\<close>

function shift_left :: "nat \<Rightarrow> 'f Invent \<Rightarrow> 'f Invent" where
  "shift_left i iv =
     (if Suc i < product_count iv
      then shift_left (Suc i) (iv\<lparr>products := (products iv)[i := products iv ! Suc i]\<rparr>)
      else iv)"
  by pat_completeness auto
termination
  by (relation "measure (\<lambda>(i, iv). product_count iv - i)") auto

declare shift_left.simps [simp del]

definition delete_product ::
  "'f float_ops \<Rightarrow> 'f Invent \<Rightarrow> string \<Rightarrow> world \<Rightarrow> 'f junk \<Rightarrow> int \<times> 'f Invent \<times> world" where
  "delete_product ops iv ident w j =
     (let index = search_product_by_id iv ident
      in if index = -1 then (0, iv, printf_msg msg_not_found w)
         else
           let deleted = products iv ! nat index;
               (r, in1) = scanf_c (stdin w);
               confirm = stored r (j_confirm j)
           in if confirm \<noteq> CHR ''y'' \<and> confirm \<noteq> CHR ''Y''
              then (0, iv, printf_msg msg_cancelled (w\<lparr>stdin := in1\<rparr>))
              else
                let iv1 = shift_left (nat index) iv;
                    iv' = iv1\<lparr>product_count := product_count iv1 - 1\<rparr>;
                    w1 = log_inventory_change ops DELETE_PRODUCT (Some deleted) None (w\<lparr>stdin := in1\<rparr>);
                    w2 = snd (save_inventory ops iv' w1)
                in (1, iv', printf_msg msg_deleted w2))"

section \<open>Identifier generation and statistics\<close>

text \<open>
  \<open>generate_unique_id\<close>: the loop keeps the largest \<open>atoi(id + 1)\<close> over the ids that begin
  with \<open>P\<close> (\<open>strncmp(id, "P", 1) == 0\<close>), starting from 0; the result is
  \<open>sprintf(id, "P%03d", max_id + 1)\<close>, returned here as a text (the caller owns the buffer).
\<close>

definition max_id_step :: "'f Prod \<Rightarrow> int \<Rightarrow> int" where
  "max_id_step p max_id =
     (if take 1 (id_c p) = ''P''
      then (let num = atoi (drop 1 (id_c p)) in if num > max_id then num else max_id)
      else max_id)"

definition generate_unique_id :: "'f Invent \<Rightarrow> string" where
  "generate_unique_id iv = CHR ''P'' # printf_0d 3 (fold max_id_step (live iv) 0 + 1)"

text \<open>
  \<open>display_inventory_statistics\<close> (display.c): the figures it prints. Signed overflow of
  \<open>total_qty\<close> is undefined in C; the loop of the model stops with \<open>None\<close> there.
\<close>

record 'f stats =
  n_products :: nat
  total_qty :: int
  total_value :: 'f
  average_price :: 'f
  low_stock_count :: int
  percent :: "'f option"

text \<open>One step of the running total of the value: \<open>total_value += quantity * price\<close>.\<close>

definition value_step :: "'f float_ops \<Rightarrow> 'f \<Rightarrow> 'f Prod \<Rightarrow> 'f" where
  "value_step ops tv p = f_add ops tv (f_mul ops (f_of_int ops (quantity p)) (price p))"

fun stats_loop ::
  "'f float_ops \<Rightarrow> 'f Prod list \<Rightarrow> int \<times> 'f \<times> int \<Rightarrow> (int \<times> 'f \<times> int) option" where
  "stats_loop ops [] acc = Some acc"
| "stats_loop ops (p # ps) (tq, tv, low) =
     (if in_int (tq + quantity p)
      then stats_loop ops ps
             (tq + quantity p, value_step ops tv p, if is_low_stock p then low + 1 else low)
      else None)"

definition display_inventory_statistics :: "'f float_ops \<Rightarrow> 'f Invent \<Rightarrow> 'f stats option" where
  "display_inventory_statistics ops iv =
     (case stats_loop ops (live iv) (0, f_zero ops, 0) of
        None \<Rightarrow> None
      | Some (tq, tv, low) \<Rightarrow>
          Some \<lparr> n_products = product_count iv,
                 total_qty = tq,
                 total_value = tv,
                 average_price = (if tq > 0 then f_div ops tv (f_of_int ops tq) else f_zero ops),
                 low_stock_count = low,
                 percent = (if product_count iv > 0
                            then Some (f_mul ops (f_div ops (f_of_int ops low)
                                         (f_of_int ops (int (product_count iv)))) (f_of_int ops 100))
                            else None) \<rparr>)"

text \<open>
  The numbers that the loop of \<open>generate_unique_id\<close> compares: what \<open>atoi\<close> reads behind
  the prefix of every id that begins with \<open>P\<close>.
\<close>

definition prefixed_numbers :: "'f Invent \<Rightarrow> int list" where
  "prefixed_numbers iv =
     map (\<lambda>p. atoi (drop 1 (id_c p))) (filter (\<lambda>p. take 1 (id_c p) = ''P'') (live iv))"

text \<open>
  The identifier in the words of its description: among the ids that start with \<open>P\<close>,
  parse the trailing digits of each (the digits at the end of the id), take the maximum and
  return \<open>P\<close> followed by the maximum plus one, padded with zeros to three digits;
  \<open>P001\<close> when no id starts with \<open>P\<close>.
\<close>

definition trailing_digits :: "string \<Rightarrow> string" where
  "trailing_digits s = rev (takeWhile isdigit (rev s))"

definition trailing_numbers :: "'f Invent \<Rightarrow> int list" where
  "trailing_numbers iv =
     map (\<lambda>p. int (dec_val (trailing_digits (id_c p)))) (filter (\<lambda>p. take 1 (id_c p) = ''P'') (live iv))"

definition described_unique_id :: "'f Invent \<Rightarrow> string" where
  "described_unique_id iv =
     (if trailing_numbers iv = [] then ''P001''
      else CHR ''P'' # printf_0d 3 (Max (set (trailing_numbers iv)) + 1))"

text \<open>An id of the generated form: one that starts with \<open>P\<close> has only digits behind it.\<close>

definition digits_behind_prefix :: "string \<Rightarrow> bool" where
  "digits_behind_prefix s \<longleftrightarrow> (take 1 s = ''P'' \<longrightarrow> list_all isdigit (drop 1 s))"

section \<open>Sample data\<close>

text \<open>
  Concrete products, inventories and environments on which the statements below are
  exercised. \<open>ex_invent ps\<close> is an inventory whose records in use are \<open>ps\<close>.
\<close>

definition ex_prod :: "string \<Rightarrow> string \<Rightarrow> int \<Rightarrow> int Prod" where
  "ex_prod n i q = \<lparr> name = n, id_c = i, category = ''Food'', quantity = q, price = 50000,
     date = ''2025-01-07'', min_stock = 5 \<rparr>"

definition ex_world :: "string \<Rightarrow> world" where
  "ex_world input = \<lparr> data_file = None, log_file = None, data_writable = True, log_writable = True,
     stdin = input, messages = [],
     now = \<lparr> tm_year = 125, tm_mon = 0, tm_mday = 7, tm_hour = 9, tm_min = 5, tm_sec = 3 \<rparr> \<rparr>"

definition ex_invent :: "int Prod list \<Rightarrow> int Invent" where
  "ex_invent ps = \<lparr> products = ps @ replicate (Max_c - length ps) (ex_prod [] [] 0),
     product_count = length ps \<rparr>"

definition ex_junk :: "int junk" where
  "ex_junk = \<lparr> j_buffer = ''?'', j_qty = 7, j_price = 7, j_threshold = 7, j_confirm = CHR ''?'' \<rparr>"

text \<open>
  An editing session in which the user leaves the name blank: after the newline that
  ended the id, an empty line for the name, \<open>Grains\<close> for the category and \<open>-1\<close> for each
  number, and one more \<open>-1\<close> because the program is still waiting.
\<close>

definition blank_name_input :: string where
  "blank_name_input =
     [newline] @ [newline] @ ''Grains'' @ [newline] @ ''-1'' @ [newline] @ ''-1'' @ [newline]
     @ ''-1'' @ [newline] @ ''-1'' @ [newline]"

text \<open>
  A store with a good record, a line that is no record, and a good record without a final
  newline; and a store whose only line is longer than the 255 characters \<open>fgets\<close> reads
  at a time: 255 commas followed by the text of a good record.
\<close>

definition sample_store :: string where
  "sample_store =
     ''Rice,P001,Food,10,500.00,5,2025-01-07'' @ [newline] @ ''not a record'' @ [newline]
     @ ''Oil,P002,Food,3,120.50,4,2025-01-08''"

definition long_line_store :: string where
  "long_line_store = replicate 255 comma @ ''Rice,P001,Food,10,500.00,5,2025-01-07'' @ [newline]"

section \<open>Searching and the array\<close>

lemma search_from_notin: "ident \<notin> id_c ` set ps \<Longrightarrow> search_from i ps ident = -1"
  by (induction ps arbitrary: i) auto

lemma search_from_in:
  "ident \<in> id_c ` set ps \<Longrightarrow>
     \<exists>k<length ps. search_from i ps ident = int (i + k) \<and> id_c (ps ! k) = ident
        \<and> (\<forall>j<k. id_c (ps ! j) \<noteq> ident)"
proof (induction ps arbitrary: i)
  case Nil
  then show ?case by simp
next
  case (Cons p ps)
  show ?case
  proof (cases "id_c p = ident")
    case True
    then show ?thesis by (intro exI [of _ 0]) simp
  next
    case False
    with Cons.prems have "ident \<in> id_c ` set ps" by auto
    from Cons.IH [OF this, of "Suc i"] obtain k where k: "k < length ps"
      "search_from (Suc i) ps ident = int (Suc i + k)" "id_c (ps ! k) = ident"
      "\<forall>j<k. id_c (ps ! j) \<noteq> ident" by blast
    show ?thesis
    proof (intro exI [of _ "Suc k"] conjI allI impI)
      fix j assume "j < Suc k"
      then show "id_c ((p # ps) ! j) \<noteq> ident"
        using False k(4) by (cases j) auto
    qed (use False k in auto)
  qed
qed

lemma search_from_neg: "search_from i ps ident = -1 \<longleftrightarrow> ident \<notin> id_c ` set ps"
proof
  assume a: "search_from i ps ident = -1"
  show "ident \<notin> id_c ` set ps"
  proof
    assume "ident \<in> id_c ` set ps"
    from search_from_in [OF this, of i] a show False by auto
  qed
qed (rule search_from_notin)

lemma search_from_append:
  "ident \<notin> id_c ` set xs \<Longrightarrow> search_from i (xs @ ys) ident = search_from (i + length xs) ys ident"
  by (induction xs arbitrary: i) auto

lemma search_not_found: "search_product_by_id iv ident = -1 \<longleftrightarrow> ident \<notin> id_c ` set (live iv)"
  by (simp add: search_product_by_id_def search_from_neg)

lemma search_found:
  assumes "search_product_by_id iv ident \<noteq> -1"
  shows "\<exists>k<length (live iv). search_product_by_id iv ident = int k \<and> id_c (live iv ! k) = ident
           \<and> (\<forall>j<k. id_c (live iv ! j) \<noteq> ident)"
proof -
  from assms have "ident \<in> id_c ` set (live iv)" by (simp add: search_not_found)
  from search_from_in [OF this, of 0] show ?thesis by (simp add: search_product_by_id_def)
qed

lemma length_live: "product_count iv \<le> length (products iv) \<Longrightarrow> length (live iv) = product_count iv"
  by (simp add: live_def)

lemma live_append_prod:
  "product_count iv < length (products iv) \<Longrightarrow> live (append_prod iv p) = live iv @ [p]"
  by (simp add: live_def append_prod_def take_Suc_conv_app_nth)

lemma wf_append_prod:
  "wf_invent iv \<Longrightarrow> product_count iv < Max_c \<Longrightarrow> wf_invent (append_prod iv p)"
  by (simp add: wf_invent_def append_prod_def)

lemma shift_left_count [simp]: "product_count (shift_left i iv) = product_count iv"
  by (induction i iv rule: shift_left.induct) (subst shift_left.simps, simp)

lemma shift_left_products:
  "i < product_count iv \<Longrightarrow> product_count iv \<le> length (products iv) \<Longrightarrow>
   products (shift_left i iv)
     = take i (products iv) @ drop (Suc i) (take (product_count iv) (products iv))
       @ drop (product_count iv - 1) (products iv)"
proof (induction i iv rule: shift_left.induct)
  case (1 i iv)
  let ?xs = "products iv" and ?n = "product_count iv"
  show ?case
  proof (cases "Suc i < ?n")
    case False
    with "1.prems" have "i = ?n - 1" by simp
    with "1.prems" False show ?thesis
      by (subst shift_left.simps) simp
  next
    case True
    let ?iv' = "iv\<lparr>products := ?xs[i := ?xs ! Suc i]\<rparr>"
    have ih: "products (shift_left (Suc i) ?iv')
        = take (Suc i) (products ?iv') @ drop (Suc (Suc i)) (take ?n (products ?iv'))
          @ drop (?n - 1) (products ?iv')"
      using "1.IH" [OF True] True "1.prems" by simp
    have a: "take (Suc i) (?xs[i := ?xs ! Suc i]) = take i ?xs @ [?xs ! Suc i]"
      using True "1.prems" by (simp add: take_Suc_conv_app_nth)
    have b: "drop (Suc (Suc i)) (take ?n (?xs[i := ?xs ! Suc i])) = drop (Suc (Suc i)) (take ?n ?xs)"
      by (simp add: take_update_swap drop_take)
    have c: "drop (?n - 1) (?xs[i := ?xs ! Suc i]) = drop (?n - 1) ?xs"
      using True by simp
    have d: "drop (Suc i) (take ?n ?xs) = ?xs ! Suc i # drop (Suc (Suc i)) (take ?n ?xs)"
      using Cons_nth_drop_Suc [of "Suc i" "take ?n ?xs"] True "1.prems" by simp
    show ?thesis
      using True ih a b c d by (subst shift_left.simps) simp
  qed
qed

lemma live_after_shift:
  assumes "i < product_count iv" "product_count iv \<le> length (products iv)"
  shows "live ((shift_left i iv)\<lparr>product_count := product_count (shift_left i iv) - 1\<rparr>)
           = take i (live iv) @ drop (Suc i) (live iv)"
proof -
  let ?xs = "products iv" and ?n = "product_count iv"
  have len: "length (take i ?xs @ drop (Suc i) (take ?n ?xs)) = ?n - 1"
    using assms by simp
  have "take (?n - 1) ((take i ?xs @ drop (Suc i) (take ?n ?xs)) @ drop (?n - 1) ?xs)
          = take i ?xs @ drop (Suc i) (take ?n ?xs)"
    using len by (metis append_eq_conv_conj)
  moreover have "take i (take ?n ?xs) = take i ?xs"
    using assms by (simp add: min_def)
  ultimately show ?thesis
    using assms by (simp add: live_def shift_left_products)
qed


lemma wf_ex_invent: "length ps \<le> Max_c \<Longrightarrow> wf_invent (ex_invent ps)"
  by (simp add: wf_invent_def ex_invent_def)

lemma live_ex_invent [simp]: "live (ex_invent ps) = ps"
  by (simp add: live_def ex_invent_def)

lemma count_ex_invent [simp]: "product_count (ex_invent ps) = length ps"
  by (simp add: ex_invent_def)

section \<open>Adding a product\<close>

text \<open>
  Claim C1. On an inventory that already holds 1000 products \<open>add_product\<close> fails with the
  message for a full inventory, and on one that has a product with the given id it fails
  with the message for a duplicate id; both leave the inventory as it was. Otherwise the
  product is stored behind the last record in use, the count grows by exactly 1, and
  \<open>search_product_by_id\<close> of the new id returns the index of the stored record.
\<close>

theorem add_product_contract:
  assumes "wf_invent iv"
  shows "(product_count iv = Max_c \<longrightarrow> add_product ops iv p w = (0, iv, printf_msg msg_full w))
     \<and> (product_count iv < Max_c \<and> id_c p \<in> id_c ` set (live iv)
          \<longrightarrow> add_product ops iv p w = (0, iv, printf_msg msg_duplicate w))
     \<and> (product_count iv < Max_c \<and> id_c p \<notin> id_c ` set (live iv)
          \<longrightarrow> (case add_product ops iv p w of (r, iv', w') \<Rightarrow>
                 r = 1 \<and> live iv' = live iv @ [p] \<and> product_count iv' = product_count iv + 1
                 \<and> search_product_by_id iv' (id_c p) = int (product_count iv)
                 \<and> products iv' ! product_count iv = p \<and> wf_invent iv'))"
proof (intro conjI impI)
  assume "product_count iv = Max_c"
  then show "add_product ops iv p w = (0, iv, printf_msg msg_full w)"
    by (simp add: add_product_def)
next
  assume "product_count iv < Max_c \<and> id_c p \<in> id_c ` set (live iv)"
  then show "add_product ops iv p w = (0, iv, printf_msg msg_duplicate w)"
    by (simp add: add_product_def search_not_found)
next
  assume a: "product_count iv < Max_c \<and> id_c p \<notin> id_c ` set (live iv)"
  with assms have lt: "product_count iv < length (products iv)"
    by (simp add: wf_invent_def)
  have len: "length (live iv) = product_count iv"
    using lt by (simp add: length_live)
  have s: "search_product_by_id (append_prod iv p) (id_c p) = int (product_count iv)"
    using a by (simp add: search_product_by_id_def live_append_prod [OF lt] search_from_append len)
  have "products (append_prod iv p) ! product_count iv = p"
    using lt by (simp add: append_prod_def)
  moreover have "product_count (append_prod iv p) = product_count iv + 1"
    by (simp add: append_prod_def)
  ultimately show "case add_product ops iv p w of (r, iv', w') \<Rightarrow>
      r = 1 \<and> live iv' = live iv @ [p] \<and> product_count iv' = product_count iv + 1
      \<and> search_product_by_id iv' (id_c p) = int (product_count iv)
      \<and> products iv' ! product_count iv = p \<and> wf_invent iv'"
    using a s assms by (simp add: add_product_def search_not_found Let_def live_append_prod [OF lt]
        wf_append_prod)
qed

text \<open>The three cases on sample inventories: a fresh id, an id in use, a full array.\<close>

theorem add_product_contract_witness:
  "wf_invent (ex_invent [ex_prod ''Rice'' ''P001'' 10])
   \<and> product_count (ex_invent [ex_prod ''Rice'' ''P001'' 10]) < Max_c
   \<and> ''P002'' \<notin> id_c ` set (live (ex_invent [ex_prod ''Rice'' ''P001'' 10]))
   \<and> (case add_product centi_ops (ex_invent [ex_prod ''Rice'' ''P001'' 10]) (ex_prod ''Oil'' ''P002'' 3) (ex_world [])
        of (r, iv', w') \<Rightarrow> r = 1 \<and> live iv' = [ex_prod ''Rice'' ''P001'' 10, ex_prod ''Oil'' ''P002'' 3]
             \<and> product_count iv' = 2 \<and> search_product_by_id iv' ''P002'' = 1)
   \<and> add_product centi_ops (ex_invent [ex_prod ''Rice'' ''P001'' 10]) (ex_prod ''Oil'' ''P001'' 3) (ex_world [])
       = (0, ex_invent [ex_prod ''Rice'' ''P001'' 10], printf_msg msg_duplicate (ex_world []))
   \<and> wf_invent (ex_invent (replicate 1000 (ex_prod ''Rice'' ''P001'' 10)))
   \<and> add_product centi_ops (ex_invent (replicate 1000 (ex_prod ''Rice'' ''P001'' 10))) (ex_prod ''Oil'' ''P002'' 3) (ex_world [])
       = (0, ex_invent (replicate 1000 (ex_prod ''Rice'' ''P001'' 10)), printf_msg msg_full (ex_world []))"
proof -
  let ?iv = "ex_invent [ex_prod ''Rice'' ''P001'' 10]"
  let ?full = "ex_invent (replicate 1000 (ex_prod ''Rice'' ''P001'' 10))"
  have h1: "wf_invent ?iv" by (simp add: wf_ex_invent Max_c_def)
  have h2: "wf_invent ?full" by (simp add: wf_ex_invent Max_c_def)
  have h3: "product_count ?iv < Max_c" by (simp add: Max_c_def)
  have h4: "''P002'' \<notin> id_c ` set (live ?iv)" by (simp add: ex_prod_def)
  have h5: "''P001'' \<in> id_c ` set (live ?iv)" by (simp add: ex_prod_def)
  have h6: "product_count ?full = Max_c" by (simp add: Max_c_def)
  have id2: "id_c (ex_prod ''Oil'' ''P002'' 3) = ''P002''" and id1: "id_c (ex_prod ''Oil'' ''P001'' 3) = ''P001''"
    by (simp_all add: ex_prod_def)
  from add_product_contract [OF h1, where p = "ex_prod ''Oil'' ''P002'' 3" and ops = centi_ops and w = "ex_world []"] h3 h4
  have a: "case add_product centi_ops ?iv (ex_prod ''Oil'' ''P002'' 3) (ex_world [])
        of (r, iv', w') \<Rightarrow> r = 1 \<and> live iv' = [ex_prod ''Rice'' ''P001'' 10, ex_prod ''Oil'' ''P002'' 3]
             \<and> product_count iv' = 2 \<and> search_product_by_id iv' ''P002'' = 1"
    by (auto simp: id2)
  from add_product_contract [OF h1, where p = "ex_prod ''Oil'' ''P001'' 3" and ops = centi_ops and w = "ex_world []"] h3 h5
  have b: "add_product centi_ops ?iv (ex_prod ''Oil'' ''P001'' 3) (ex_world [])
       = (0, ?iv, printf_msg msg_duplicate (ex_world []))"
    by (simp add: id1)
  from add_product_contract [OF h2, where p = "ex_prod ''Oil'' ''P002'' 3" and ops = centi_ops and w = "ex_world []"] h6
  have c: "add_product centi_ops ?full (ex_prod ''Oil'' ''P002'' 3) (ex_world [])
       = (0, ?full, printf_msg msg_full (ex_world []))"
    by simp
  from h1 h2 h3 h4 a b c show ?thesis by blast
qed

section \<open>Deleting a product\<close>

lemma delete_product_result:
  assumes le: "product_count iv \<le> length (products iv)"
    and i: "i < product_count iv" "search_product_by_id iv ident = int i"
    and yes: "fst (scanf_c (stdin w)) = Some c" "c = CHR ''y'' \<or> c = CHR ''Y''"
  shows "\<exists>iv' w'. delete_product ops iv ident w j = (1, iv', w')
           \<and> live iv' = take i (live iv) @ drop (Suc i) (live iv)
           \<and> product_count iv' + 1 = product_count iv"
proof -
  define iv' where "iv' = (shift_left i iv)\<lparr>product_count := product_count (shift_left i iv) - 1\<rparr>"
  have lv: "live iv' = take i (live iv) @ drop (Suc i) (live iv)"
    unfolding iv'_def by (rule live_after_shift [OF i(1) le])
  have cnt: "product_count iv' + 1 = product_count iv"
    using i(1) by (simp add: iv'_def)
  obtain r in1 where sc: "scanf_c (stdin w) = (r, in1)" by (cases "scanf_c (stdin w)")
  with yes have r: "r = Some c" by simp
  have "delete_product ops iv ident w j = (1, iv',
      printf_msg msg_deleted (snd (save_inventory ops iv'
        (log_inventory_change ops DELETE_PRODUCT (Some (products iv ! i)) None (w\<lparr>stdin := in1\<rparr>)))))"
    using i(2) sc r yes(2) by (auto simp: delete_product_def Let_def stored_def iv'_def)
  with lv cnt show ?thesis by blast
qed

text \<open>
  Claim C3, as amended. On an inventory that has a product with the given id, a confirmed
  \<open>delete_product\<close> (the answer read is \<open>y\<close> or \<open>Y\<close>) removes the first record with that
  id: the records behind it move one position to the left, the order of the remaining
  records is kept and the count drops by exactly 1. When the ids of the inventory are
  pairwise distinct, \<open>search_product_by_id\<close> then no longer finds the id.
\<close>

theorem delete_product_confirmed:
  assumes wf: "wf_invent iv"
    and found: "ident \<in> id_c ` set (live iv)"
    and yes: "fst (scanf_c (stdin w)) = Some c" "c = CHR ''y'' \<or> c = CHR ''Y''"
  shows "case delete_product ops iv ident w j of (r, iv', w') \<Rightarrow>
           r = 1
         \<and> (\<exists>i<product_count iv. search_product_by_id iv ident = int i \<and> id_c (live iv ! i) = ident
              \<and> live iv' = take i (live iv) @ drop (Suc i) (live iv))
         \<and> product_count iv' + 1 = product_count iv
         \<and> (distinct (map id_c (live iv)) \<longrightarrow> search_product_by_id iv' ident = -1)"
proof -
  from wf have le: "product_count iv \<le> length (products iv)"
    by (simp add: wf_invent_def)
  from found have ne: "search_product_by_id iv ident \<noteq> -1"
    by (simp add: search_not_found)
  from search_found [OF ne] obtain i where i: "i < length (live iv)"
    "search_product_by_id iv ident = int i" "id_c (live iv ! i) = ident" by blast
  from i(1) le have lt: "i < product_count iv" by (simp add: length_live)
  from delete_product_result [OF le lt i(2) yes, where ops = ops and j = j] obtain iv' w' where
    res: "delete_product ops iv ident w j = (1, iv', w')"
      "live iv' = take i (live iv) @ drop (Suc i) (live iv)"
      "product_count iv' + 1 = product_count iv" by blast
  have gone: "search_product_by_id iv' ident = -1" if d: "distinct (map id_c (live iv))"
  proof -
    have "live iv = take i (live iv) @ live iv ! i # drop (Suc i) (live iv)"
      using i(1) by (simp add: id_take_nth_drop [symmetric])
    then have "map id_c (live iv)
        = map id_c (take i (live iv)) @ ident # map id_c (drop (Suc i) (live iv))"
      using i(3) by (metis list.simps(9) map_append)
    with d have "distinct (map id_c (take i (live iv)) @ ident # map id_c (drop (Suc i) (live iv)))"
      by simp
    then have "ident \<notin> id_c ` set (take i (live iv) @ drop (Suc i) (live iv))"
      by auto
    then show ?thesis by (simp add: search_not_found res(2))
  qed
  show ?thesis
    using lt i res gone by auto
qed

theorem delete_product_confirmed_witness:
  "wf_invent (ex_invent [ex_prod ''Rice'' ''P001'' 10, ex_prod ''Oil'' ''P002'' 3, ex_prod ''Salt'' ''P003'' 8])
   \<and> ''P002'' \<in> id_c ` set (live (ex_invent [ex_prod ''Rice'' ''P001'' 10, ex_prod ''Oil'' ''P002'' 3, ex_prod ''Salt'' ''P003'' 8]))
   \<and> fst (scanf_c (stdin (ex_world (newline # ''y'' @ [newline])))) = Some (CHR ''y'')
   \<and> distinct (map id_c (live (ex_invent [ex_prod ''Rice'' ''P001'' 10, ex_prod ''Oil'' ''P002'' 3, ex_prod ''Salt'' ''P003'' 8])))
   \<and> (case delete_product centi_ops (ex_invent [ex_prod ''Rice'' ''P001'' 10, ex_prod ''Oil'' ''P002'' 3, ex_prod ''Salt'' ''P003'' 8])
             ''P002'' (ex_world (newline # ''y'' @ [newline])) ex_junk of (r, iv', w') \<Rightarrow>
        r = 1 \<and> live iv' = [ex_prod ''Rice'' ''P001'' 10, ex_prod ''Salt'' ''P003'' 8]
        \<and> product_count iv' = 2 \<and> search_product_by_id iv' ''P002'' = -1)"
proof -
  let ?iv = "ex_invent [ex_prod ''Rice'' ''P001'' 10, ex_prod ''Oil'' ''P002'' 3, ex_prod ''Salt'' ''P003'' 8]"
  let ?w = "ex_world (newline # ''y'' @ [newline])"
  have h1: "wf_invent ?iv" by (simp add: wf_ex_invent Max_c_def)
  have h2: "''P002'' \<in> id_c ` set (live ?iv)" by (simp add: ex_prod_def)
  have h3: "fst (scanf_c (stdin ?w)) = Some (CHR ''y'')"
    by (simp add: scanf_c_def ex_world_def isspace_def newline_def)
  have h4: "distinct (map id_c (live ?iv))" by (simp add: ex_prod_def)
  have s: "search_product_by_id ?iv ''P002'' = 1"
    by (simp add: search_product_by_id_def ex_prod_def)
  from delete_product_confirmed [OF h1 h2 h3, where ops = centi_ops and j = ex_junk] h4 s
  show ?thesis using h1 h2 h3 by (auto simp: ex_prod_def)
qed


text \<open>
  Without distinct ids the search after the deletion still succeeds: of two records with
  the id \<open>P001\<close> only the first is removed.
\<close>

theorem delete_duplicate_id_counterexample:
  "''P001'' \<in> id_c ` set (live (ex_invent [ex_prod ''Rice'' ''P001'' 10, ex_prod ''Oil'' ''P001'' 3]))
   \<and> fst (delete_product centi_ops (ex_invent [ex_prod ''Rice'' ''P001'' 10, ex_prod ''Oil'' ''P001'' 3])
             ''P001'' (ex_world (newline # ''y'' @ [newline])) ex_junk) = 1
   \<and> search_product_by_id
        (fst (snd (delete_product centi_ops (ex_invent [ex_prod ''Rice'' ''P001'' 10, ex_prod ''Oil'' ''P001'' 3])
             ''P001'' (ex_world (newline # ''y'' @ [newline])) ex_junk))) ''P001'' \<noteq> -1"
proof -
  let ?iv = "ex_invent [ex_prod ''Rice'' ''P001'' 10, ex_prod ''Oil'' ''P001'' 3]"
  let ?w = "ex_world (newline # ''y'' @ [newline])"
  have le: "product_count ?iv \<le> length (products ?iv)"
    by (simp add: ex_invent_def Max_c_def)
  have i: "0 < product_count ?iv" "search_product_by_id ?iv ''P001'' = int 0"
    by (simp_all add: search_product_by_id_def ex_prod_def)
  have yes: "fst (scanf_c (stdin ?w)) = Some (CHR ''y'')"
    by (simp add: scanf_c_def ex_world_def isspace_def newline_def)
  from delete_product_result [OF le i yes, where ops = centi_ops and j = ex_junk] obtain iv' w' where
    res: "delete_product centi_ops ?iv ''P001'' ?w ex_junk = (1, iv', w')"
      "live iv' = take 0 (live ?iv) @ drop (Suc 0) (live ?iv)" by auto
  from res(2) have "search_product_by_id iv' ''P001'' = 0"
    by (simp add: search_product_by_id_def ex_prod_def)
  with res(1) show ?thesis by (simp add: ex_prod_def)
qed


section \<open>Decimal text\<close>

lemma of_char_digit_chr: "d < 10 \<Longrightarrow> (of_char (digit_chr d) :: nat) = 48 + d"
proof -
  assume "d < 10"
  then have "d \<in> {0, 1, 2, 3, 4, 5, 6, 7, 8, 9}" by auto
  then show ?thesis by (auto simp: digit_chr_def)
qed

lemma isdigit_digit_chr: "d < 10 \<Longrightarrow> isdigit (digit_chr d)"
  by (simp add: isdigit_def of_char_digit_chr)

lemma digit_val_digit_chr: "d < 10 \<Longrightarrow> digit_val (digit_chr d) = d"
  by (simp add: digit_val_def of_char_digit_chr)

lemma digit_chr_0: "digit_chr 0 = CHR ''0''"
  by (simp add: digit_chr_def)

lemma isdigit_zero: "isdigit (CHR ''0'')" and digit_val_zero: "digit_val (CHR ''0'') = 0"
  by (simp_all add: isdigit_def digit_val_def)

lemma dec_nonempty: "dec n \<noteq> []"
  by (subst dec.simps) simp

lemma dec_digits: "list_all isdigit (dec n)"
proof (induction n rule: dec.induct)
  case (1 n)
  show ?case
  proof (cases "n < 10")
    case True
    then show ?thesis by (subst dec.simps) (simp add: isdigit_digit_chr)
  next
    case False
    with 1 show ?thesis by (subst dec.simps) (simp add: isdigit_digit_chr)
  qed
qed

lemma dec_val_snoc: "dec_val (ds @ [c]) = 10 * dec_val ds + digit_val c"
  by (simp add: dec_val_def)

lemma dec_val_dec: "dec_val (dec n) = n"
proof (induction n rule: dec.induct)
  case (1 n)
  show ?case
  proof (cases "n < 10")
    case True
    then show ?thesis by (subst dec.simps) (simp add: dec_val_def digit_val_digit_chr)
  next
    case False
    with 1 show ?thesis by (subst dec.simps) (simp add: dec_val_snoc digit_val_digit_chr)
  qed
qed

lemma dec_val_zeros: "foldl (\<lambda>a c. 10 * a + digit_val c) 0 (replicate k (CHR ''0'')) = 0"
  by (induction k) (simp_all add: digit_val_zero)

lemma dec_val_zero_pad: "dec_val (zero_pad w s) = dec_val s"
  by (simp add: zero_pad_def dec_val_def dec_val_zeros)

lemma zero_pad_digits: "list_all isdigit s \<Longrightarrow> list_all isdigit (zero_pad w s)"
  by (auto simp: zero_pad_def isdigit_zero list_all_iff)

lemma zero_pad_nonempty: "s \<noteq> [] \<Longrightarrow> zero_pad w s \<noteq> []"
  by (simp add: zero_pad_def)

lemma isdigit_not_space: "isdigit c \<Longrightarrow> \<not> isspace c"
  by (auto simp: isdigit_def isspace_def)

lemma isdigit_not_sign: "isdigit c \<Longrightarrow> c \<noteq> CHR ''-'' \<and> c \<noteq> CHR ''+''"
  by (auto simp: isdigit_def)

lemma takeWhile_digits:
  "list_all isdigit ds \<Longrightarrow> (rest = [] \<or> \<not> isdigit (hd rest)) \<Longrightarrow> takeWhile isdigit (ds @ rest) = ds"
  by (cases rest) (auto simp: list_all_iff)

lemma scan_d_digits:
  assumes "list_all isdigit ds" "ds \<noteq> []" "rest = [] \<or> \<not> isdigit (hd rest)"
  shows "scan_d (ds @ rest) = (Some (int (dec_val ds)), rest)"
proof -
  obtain c cs where ds: "ds = c # cs" using assms(2) by (cases ds) auto
  with assms(1) have c: "isdigit c" by simp
  have sp: "dropWhile isspace (ds @ rest) = ds @ rest"
    using ds c by (simp add: isdigit_not_space)
  have sg: "take 1 (ds @ rest) = [c]"
    using ds by simp
  have tw: "takeWhile isdigit (ds @ rest) = ds"
    by (rule takeWhile_digits [OF assms(1,3)])
  show ?thesis
    unfolding scan_d_def sp Let_def sg using assms(2) isdigit_not_sign [OF c] by (simp add: tw)
qed

lemma scan_d_minus_digits:
  assumes "list_all isdigit ds" "ds \<noteq> []" "rest = [] \<or> \<not> isdigit (hd rest)"
  shows "scan_d (CHR ''-'' # ds @ rest) = (Some (- int (dec_val ds)), rest)"
proof -
  have sp: "dropWhile isspace (CHR ''-'' # ds @ rest) = CHR ''-'' # ds @ rest"
    by (simp add: isspace_def)
  have tw: "takeWhile isdigit (ds @ rest) = ds"
    by (rule takeWhile_digits [OF assms(1,3)])
  show ?thesis
    unfolding scan_d_def sp Let_def using assms(2) by (simp add: tw)
qed

lemma scan_d_printf_d:
  assumes "rest = [] \<or> \<not> isdigit (hd rest)"
  shows "scan_d (printf_d k @ rest) = (Some k, rest)"
proof (cases "k < 0")
  case True
  then show ?thesis
    using scan_d_minus_digits [OF dec_digits dec_nonempty assms, of "nat (- k)"]
    by (simp add: printf_d_def dec_val_dec)
next
  case False
  then show ?thesis
    using scan_d_digits [OF dec_digits dec_nonempty assms, of "nat k"]
    by (simp add: printf_d_def dec_val_dec)
qed

lemma atoi_printf_0d: "0 \<le> k \<Longrightarrow> atoi (printf_0d w k) = k"
  using scan_d_digits [where ds = "zero_pad w (dec (nat k))" and rest = "[]"]
  by (simp add: atoi_def printf_0d_def dec_val_zero_pad dec_val_dec zero_pad_digits dec_digits
      zero_pad_nonempty dec_nonempty)

lemma length_dec_1: "n < 10 \<Longrightarrow> length (dec n) = 1"
  by (subst dec.simps) simp

lemma length_dec_2: "10 \<le> n \<Longrightarrow> n < 100 \<Longrightarrow> length (dec n) = 2"
  by (subst dec.simps) (simp add: length_dec_1)

lemma length_dec_3: "100 \<le> n \<Longrightarrow> n < 1000 \<Longrightarrow> length (dec n) = 3"
  by (subst dec.simps) (simp add: length_dec_2)

lemma length_dec_4: "1000 \<le> n \<Longrightarrow> n < 10000 \<Longrightarrow> length (dec n) = 4"
  by (subst dec.simps) (simp add: length_dec_3)

lemma digits_year: "1000 \<le> y \<Longrightarrow> y \<le> 9999 \<Longrightarrow> digits 4 (printf_d y)"
  by (simp add: digits_def printf_d_def dec_digits length_dec_4)

lemma digits_two: "0 \<le> k \<Longrightarrow> k \<le> 99 \<Longrightarrow> digits 2 (printf_0d 2 k)"
proof -
  assume k: "0 \<le> k" "k \<le> 99"
  have "length (zero_pad 2 (dec (nat k))) = 2"
  proof (cases "k < 10")
    case True
    with k show ?thesis by (simp add: zero_pad_def length_dec_1)
  next
    case False
    with k show ?thesis by (simp add: zero_pad_def length_dec_2)
  qed
  with k show ?thesis
    by (simp add: digits_def printf_0d_def zero_pad_digits dec_digits)
qed

lemma replicate_2: "replicate 2 x = [x, x]"
  by (simp add: numeral_2_eq_2)

lemmas text_eval = printf_d_def printf_0d_def zero_pad_def dec.simps digit_chr_def replicate_2
  centi_printf2_def

lemmas scan_eval = atoi_def scan_d_def isspace_def isdigit_def dec_val_def digit_val_def Let_def
  centi_scanf_def

section \<open>Generating an identifier\<close>

lemma Max_insert_max:
  fixes m :: int
  shows "finite S \<Longrightarrow> Max (insert (max m n) S) = Max (insert m (insert n S))"
  by (cases "S = {}") (simp_all add: max.assoc)

lemma max_id_step_eq:
  "max_id_step p m = (if take 1 (id_c p) = ''P'' then max m (atoi (drop 1 (id_c p))) else m)"
  by (simp add: max_id_step_def Let_def max_def)

lemma fold_max_id_step:
  "fold max_id_step ps m
     = Max (set (m # map (\<lambda>p. atoi (drop 1 (id_c p))) (filter (\<lambda>p. take 1 (id_c p) = ''P'') ps)))"
proof (induction ps arbitrary: m)
  case Nil
  then show ?case by simp
next
  case (Cons p ps)
  let ?ns = "map (\<lambda>p. atoi (drop 1 (id_c p))) (filter (\<lambda>p. take 1 (id_c p) = ''P'') ps)"
  have step: "fold max_id_step (p # ps) m = Max (set (max_id_step p m # ?ns))"
    using Cons.IH [of "max_id_step p m"] by simp
  show ?case
  proof (cases "take 1 (id_c p) = ''P''")
    case False
    then show ?thesis unfolding step by (simp add: max_id_step_eq)
  next
    case True
    let ?n = "atoi (drop 1 (id_c p))"
    have "Max (set (max m ?n # ?ns)) = Max (insert m (insert ?n (set ?ns)))"
      using Max_insert_max [of "set ?ns" m ?n] by simp
    then show ?thesis unfolding step using True by (simp add: max_id_step_eq)
  qed
qed

lemma fold_max_id_step_ge0: "0 \<le> fold max_id_step ps 0"
  by (simp add: fold_max_id_step)

lemma trailing_digits_prefixed:
  assumes "list_all isdigit ds"
  shows "trailing_digits (CHR ''P'' # ds) = ds"
proof -
  have "list_all isdigit (rev ds)" using assms by (simp add: list_all_iff)
  moreover have "\<not> isdigit (hd [CHR ''P''])" by (simp add: isdigit_def)
  ultimately have "takeWhile isdigit (rev ds @ [CHR ''P'']) = rev ds"
    by (intro takeWhile_digits) simp_all
  then show ?thesis by (simp add: trailing_digits_def)
qed

lemma atoi_digits:
  assumes "list_all isdigit ds"
  shows "atoi ds = int (dec_val ds)"
proof (cases "ds = []")
  case True
  then show ?thesis by (simp add: atoi_def scan_d_def dec_val_def)
next
  case False
  with scan_d_digits [OF assms, of "[]"] show ?thesis by (simp add: atoi_def)
qed

lemma trailing_numbers_prefixed:
  assumes "list_all (\<lambda>p. digits_behind_prefix (id_c p)) (live iv)"
  shows "trailing_numbers iv = prefixed_numbers iv"
proof -
  have "int (dec_val (trailing_digits (id_c p))) = atoi (drop 1 (id_c p))"
    if p: "p \<in> set (live iv)" and pre: "take 1 (id_c p) = ''P''" for p
  proof -
    from assms p pre have d: "list_all isdigit (drop 1 (id_c p))"
      by (simp add: list_all_iff digits_behind_prefix_def)
    from pre have "id_c p = CHR ''P'' # drop 1 (id_c p)"
      by (cases "id_c p") simp_all
    then have td: "trailing_digits (id_c p) = drop 1 (id_c p)"
      using trailing_digits_prefixed [OF d] by simp
    show ?thesis unfolding td by (rule atoi_digits [OF d, symmetric])
  qed
  then show ?thesis
    by (simp add: trailing_numbers_def prefixed_numbers_def)
qed

lemma trailing_numbers_ge0: "n \<in> set (trailing_numbers iv) \<Longrightarrow> 0 \<le> n"
  by (auto simp: trailing_numbers_def)

text \<open>
  Claim C4, as amended. \<open>generate_unique_id\<close> goes through the products whose id begins
  with \<open>P\<close>, reads the number behind the prefix of each as \<open>atoi\<close> does, takes the largest
  of these numbers and 0, and returns \<open>P\<close> followed by that maximum plus one, padded with
  zeros to three digits; so it returns \<open>P001\<close> when no id begins with \<open>P\<close>. When every id
  that begins with \<open>P\<close> has only digits behind the prefix, this is the identifier of the
  description: the maximum of the trailing digits, plus one. Over the ids \<open>P001\<close>,
  \<open>P003\<close>, \<open>P010\<close> it returns \<open>P011\<close>.
\<close>

theorem generate_unique_id_spec:
  "generate_unique_id iv = CHR ''P'' # printf_0d 3 (Max (set (0 # prefixed_numbers iv)) + 1)
   \<and> (list_all (\<lambda>p. take 1 (id_c p) \<noteq> ''P'') (live iv) \<longrightarrow> generate_unique_id iv = ''P001'')
   \<and> (list_all (\<lambda>p. digits_behind_prefix (id_c p)) (live iv)
        \<longrightarrow> generate_unique_id iv = described_unique_id iv)
   \<and> (map id_c (live iv) = [''P001'', ''P003'', ''P010''] \<longrightarrow> generate_unique_id iv = ''P011'')"
proof (intro conjI impI)
  show g: "generate_unique_id iv = CHR ''P'' # printf_0d 3 (Max (set (0 # prefixed_numbers iv)) + 1)"
    by (simp add: generate_unique_id_def fold_max_id_step prefixed_numbers_def)
  have p1: "printf_0d 3 1 = ''001''" by (simp add: text_eval scan_eval)
  show "generate_unique_id iv = ''P001''" if "list_all (\<lambda>p. take 1 (id_c p) \<noteq> ''P'') (live iv)"
  proof -
    from that have "filter (\<lambda>p. take 1 (id_c p) = ''P'') (live iv) = []"
      by (simp add: list_all_iff filter_empty_conv)
    then have "prefixed_numbers iv = []" by (simp add: prefixed_numbers_def)
    then show ?thesis by (simp add: g p1)
  qed
  show "generate_unique_id iv = described_unique_id iv"
    if plain: "list_all (\<lambda>p. digits_behind_prefix (id_c p)) (live iv)"
  proof (cases "trailing_numbers iv = []")
    case True
    then show ?thesis
      using trailing_numbers_prefixed [OF plain] by (simp add: g p1 described_unique_id_def)
  next
    case False
    then obtain n where n: "n \<in> set (trailing_numbers iv)" by (cases "trailing_numbers iv") auto
    then have "n \<le> Max (set (trailing_numbers iv))" by simp
    with trailing_numbers_ge0 [OF n]
    have "max 0 (Max (set (trailing_numbers iv))) = Max (set (trailing_numbers iv))" by simp
    with False have "Max (set (0 # trailing_numbers iv)) = Max (set (trailing_numbers iv))"
      by simp
    with False show ?thesis
      using trailing_numbers_prefixed [OF plain] by (simp only: g described_unique_id_def if_False)
  qed
  show "generate_unique_id iv = ''P011''" if ids: "map id_c (live iv) = [''P001'', ''P003'', ''P010'']"
  proof -
    from ids obtain a b c where l: "live iv = [a, b, c]"
      "id_c a = ''P001''" "id_c b = ''P003''" "id_c c = ''P010''" by auto
    have "atoi ''001'' = 1" "atoi ''003'' = 3" "atoi ''010'' = 10" by (simp_all add: text_eval scan_eval)
    with l have "prefixed_numbers iv = [1, 3, 10]"
      by (simp add: prefixed_numbers_def)
    moreover have "printf_0d 3 11 = ''011''" by (simp add: text_eval scan_eval)
    ultimately show ?thesis by (simp add: g)
  qed
qed

theorem generate_unique_id_spec_witness:
  "list_all (\<lambda>p. take 1 (id_c p) \<noteq> ''P'') (live (ex_invent [ex_prod ''Rice'' ''A7'' 10]))
   \<and> generate_unique_id (ex_invent [ex_prod ''Rice'' ''A7'' 10]) = ''P001''
   \<and> map id_c (live (ex_invent [ex_prod ''Rice'' ''P001'' 10, ex_prod ''Oil'' ''P003'' 3, ex_prod ''Salt'' ''P010'' 8]))
        = [''P001'', ''P003'', ''P010'']
   \<and> generate_unique_id (ex_invent [ex_prod ''Rice'' ''P001'' 10, ex_prod ''Oil'' ''P003'' 3, ex_prod ''Salt'' ''P010'' 8])
        = ''P011''
   \<and> list_all (\<lambda>p. digits_behind_prefix (id_c p))
        (live (ex_invent [ex_prod ''Rice'' ''P007'' 10, ex_prod ''Oil'' ''X1'' 3, ex_prod ''Salt'' ''P002'' 8]))
   \<and> described_unique_id (ex_invent [ex_prod ''Rice'' ''P007'' 10, ex_prod ''Oil'' ''X1'' 3, ex_prod ''Salt'' ''P002'' 8])
        = ''P008''
   \<and> generate_unique_id (ex_invent [ex_prod ''Rice'' ''P007'' 10, ex_prod ''Oil'' ''X1'' 3, ex_prod ''Salt'' ''P002'' 8])
        = ''P008''"
proof -
  let ?a = "ex_invent [ex_prod ''Rice'' ''A7'' 10]"
  let ?b = "ex_invent [ex_prod ''Rice'' ''P001'' 10, ex_prod ''Oil'' ''P003'' 3, ex_prod ''Salt'' ''P010'' 8]"
  let ?c = "ex_invent [ex_prod ''Rice'' ''P007'' 10, ex_prod ''Oil'' ''X1'' 3, ex_prod ''Salt'' ''P002'' 8]"
  have h1: "list_all (\<lambda>p. take 1 (id_c p) \<noteq> ''P'') (live ?a)"
    by (simp add: ex_prod_def)
  have h2: "map id_c (live ?b) = [''P001'', ''P003'', ''P010'']"
    by (simp add: ex_prod_def)
  have h3: "list_all (\<lambda>p. digits_behind_prefix (id_c p)) (live ?c)"
    by (simp add: ex_prod_def digits_behind_prefix_def isdigit_def)
  have "trailing_numbers ?c = [7, 2]"
    by (simp add: trailing_numbers_def trailing_digits_def ex_prod_def isdigit_def dec_val_def digit_val_def)
  moreover have p8: "printf_0d 3 8 = ''008''" by (simp add: text_eval scan_eval)
  ultimately have d: "described_unique_id ?c = ''P008''"
    by (simp add: described_unique_id_def)
  from generate_unique_id_spec [of ?a] h1 have a: "generate_unique_id ?a = ''P001''" by blast
  from generate_unique_id_spec [of ?b] h2 have b: "generate_unique_id ?b = ''P011''" by blast
  from generate_unique_id_spec [of ?c] h3 have c: "generate_unique_id ?c = described_unique_id ?c"
    by blast
  from h1 h2 h3 a b c d show ?thesis by simp
qed

text \<open>
  An id that begins with \<open>P\<close> and has a letter behind the prefix: its trailing digits are
  \<open>7\<close>, so the description gives \<open>P008\<close>, but \<open>atoi("A7")\<close> is 0 and the function returns
  \<open>P001\<close>.
\<close>

theorem generate_unique_id_trailing_digits_counterexample:
  "take 1 (id_c (ex_prod ''Rice'' ''PA7'' 10)) = ''P''
   \<and> trailing_digits (id_c (ex_prod ''Rice'' ''PA7'' 10)) = ''7''
   \<and> described_unique_id (ex_invent [ex_prod ''Rice'' ''PA7'' 10]) = ''P008''
   \<and> generate_unique_id (ex_invent [ex_prod ''Rice'' ''PA7'' 10]) = ''P001''"
proof -
  let ?iv = "ex_invent [ex_prod ''Rice'' ''PA7'' 10]"
  have t: "trailing_digits ''PA7'' = ''7''"
    by (simp add: trailing_digits_def isdigit_def)
  have "trailing_numbers ?iv = [7]"
    by (simp add: trailing_numbers_def ex_prod_def t dec_val_def digit_val_def)
  moreover have "printf_0d 3 8 = ''008''" by (simp add: text_eval scan_eval)
  ultimately have d: "described_unique_id ?iv = ''P008''"
    by (simp add: described_unique_id_def)
  have "atoi ''A7'' = 0" "printf_0d 3 1 = ''001''" by (simp_all add: text_eval scan_eval)
  then have g: "generate_unique_id ?iv = ''P001''"
    by (simp add: generate_unique_id_def max_id_step_eq ex_prod_def)
  from t d g show ?thesis by (simp add: ex_prod_def)
qed

lemma fold_max_id_step_ge:
  "p \<in> set ps \<Longrightarrow> take 1 (id_c p) = ''P'' \<Longrightarrow> atoi (drop 1 (id_c p)) \<le> fold max_id_step ps m"
proof -
  assume a: "p \<in> set ps" "take 1 (id_c p) = ''P''"
  let ?S = "set (m # map (\<lambda>p. atoi (drop 1 (id_c p))) (filter (\<lambda>p. take 1 (id_c p) = ''P'') ps))"
  from a have "atoi (drop 1 (id_c p)) \<in> ?S" by auto
  then have "atoi (drop 1 (id_c p)) \<le> Max ?S" by (intro Max_ge) simp_all
  then show ?thesis by (simp only: fold_max_id_step)
qed

lemma generate_unique_id_not_used: "generate_unique_id iv \<notin> id_c ` set (live iv)"
proof
  let ?m = "fold max_id_step (live iv) 0"
  assume "generate_unique_id iv \<in> id_c ` set (live iv)"
  then obtain p where p: "p \<in> set (live iv)" "id_c p = CHR ''P'' # printf_0d 3 (?m + 1)"
    by (auto simp: generate_unique_id_def)
  have m0: "0 \<le> ?m" by (rule fold_max_id_step_ge0)
  from p(2) have "take 1 (id_c p) = ''P''" by simp
  from fold_max_id_step_ge [OF p(1) this, of 0] p(2) have "atoi (printf_0d 3 (?m + 1)) \<le> ?m"
    by simp
  with m0 show False by (simp add: atoi_printf_0d)
qed

text \<open>
  Claim C10. The id that \<open>generate_unique_id\<close> returns differs from the id of every
  product in the inventory: \<open>search_product_by_id\<close> does not find it, and \<open>add_product\<close>
  with that id succeeds unless the inventory is full, so it never reports a duplicate id.
\<close>

theorem generate_unique_id_fresh:
  "generate_unique_id iv \<notin> id_c ` set (live iv)
   \<and> search_product_by_id iv (generate_unique_id iv) = -1
   \<and> (case add_product ops iv (p\<lparr>id_c := generate_unique_id iv\<rparr>) w of (r, iv', w') \<Rightarrow>
        if product_count iv < Max_c then r = 1 else r = 0 \<and> w' = printf_msg msg_full w)"
proof -
  have a: "generate_unique_id iv \<notin> id_c ` set (live iv)"
    by (rule generate_unique_id_not_used)
  then have b: "search_product_by_id iv (generate_unique_id iv) = -1"
    by (simp add: search_not_found)
  show ?thesis
    using a b by (simp add: add_product_def Let_def)
qed

theorem generate_unique_id_fresh_witness:
  "generate_unique_id (ex_invent [ex_prod ''Rice'' ''P001'' 10, ex_prod ''Oil'' ''P003'' 3]) = ''P004''
   \<and> search_product_by_id (ex_invent [ex_prod ''Rice'' ''P001'' 10, ex_prod ''Oil'' ''P003'' 3]) ''P004'' = -1
   \<and> fst (add_product centi_ops (ex_invent [ex_prod ''Rice'' ''P001'' 10, ex_prod ''Oil'' ''P003'' 3])
          (ex_prod ''Salt'' ''P004'' 8) (ex_world [])) = 1"
proof -
  let ?iv = "ex_invent [ex_prod ''Rice'' ''P001'' 10, ex_prod ''Oil'' ''P003'' 3]"
  have "atoi ''001'' = 1" "atoi ''003'' = 3" "printf_0d 3 4 = ''004''" by (simp_all add: text_eval scan_eval)
  then have g: "generate_unique_id ?iv = ''P004''"
    by (simp add: generate_unique_id_def max_id_step_eq ex_prod_def)
  have p: "(ex_prod ''Salt'' [] 8)\<lparr>id_c := ''P004''\<rparr> = ex_prod ''Salt'' ''P004'' 8"
    by (simp add: ex_prod_def)
  from generate_unique_id_fresh [where iv = ?iv and p = "ex_prod ''Salt'' [] 8" and ops = centi_ops and w = "ex_world []"]
  show ?thesis
    unfolding g p by (auto simp: Max_c_def)
qed


section \<open>Statistics\<close>

lemma stats_loop_result:
  "\<forall>k\<le>length ps. in_int (tq + sum_list (map quantity (take k ps))) \<Longrightarrow>
   stats_loop ops ps (tq, tv, low)
     = Some (tq + sum_list (map quantity ps), foldl (value_step ops) tv ps,
             low + int (length (filter is_low_stock ps)))"
proof (induction ps arbitrary: tq tv low)
  case Nil
  then show ?case by simp
next
  case (Cons p ps)
  have "Suc 0 \<le> length (p # ps)" by simp
  with Cons.prems have "in_int (tq + sum_list (map quantity (take (Suc 0) (p # ps))))"
    by blast
  then have one: "in_int (tq + quantity p)" by simp
  have rest: "\<forall>k\<le>length ps. in_int (tq + quantity p + sum_list (map quantity (take k ps)))"
  proof (intro allI impI)
    fix k assume "k \<le> length ps"
    then have "Suc k \<le> length (p # ps)" by simp
    with Cons.prems have "in_int (tq + sum_list (map quantity (take (Suc k) (p # ps))))" by blast
    then show "in_int (tq + quantity p + sum_list (map quantity (take k ps)))"
      by (simp add: add.assoc)
  qed
  show ?case
    using one Cons.IH [OF rest] by (simp add: add.assoc)
qed

text \<open>
  Claim C5, as amended. While the running total of the quantities stays within the range
  of \<open>int\<close>, \<open>display_inventory_statistics\<close> reports: the total quantity, the sum of
  the quantities; the total value, the quantities times the prices added up from \<open>0.0\<close> in
  storage order; the average price, total value divided by total quantity when the total
  quantity is positive and \<open>0.0\<close> otherwise; the number of products with
  \<open>quantity <= min_stock\<close>; and a percentage only when there is at least one product. On
  an empty inventory all four figures are zero and no division takes place.
\<close>

theorem statistics_figures:
  assumes "\<forall>k\<le>length (live iv). in_int (sum_list (map quantity (take k (live iv))))"
  shows "(case display_inventory_statistics ops iv of
            None \<Rightarrow> False
          | Some s \<Rightarrow>
              n_products s = product_count iv
            \<and> total_qty s = sum_list (map quantity (live iv))
            \<and> total_value s = foldl (value_step ops) (f_zero ops) (live iv)
            \<and> average_price s = (if total_qty s > 0
                                   then f_div ops (total_value s) (f_of_int ops (total_qty s))
                                   else f_zero ops)
            \<and> low_stock_count s = int (length (filter is_low_stock (live iv)))
            \<and> (percent s = None \<longleftrightarrow> product_count iv = 0)
            \<and> (product_count iv > 0 \<longrightarrow> percent s = Some (f_mul ops
                   (f_div ops (f_of_int ops (low_stock_count s)) (f_of_int ops (int (product_count iv))))
                   (f_of_int ops 100)))
            \<and> (product_count iv = 0 \<longrightarrow> total_qty s = 0 \<and> total_value s = f_zero ops
                   \<and> average_price s = f_zero ops \<and> low_stock_count s = 0 \<and> percent s = None))"
proof -
  from assms have "\<forall>k\<le>length (live iv). in_int (0 + sum_list (map quantity (take k (live iv))))"
    by simp
  from stats_loop_result [OF this, of ops "f_zero ops" 0]
  have loop: "stats_loop ops (live iv) (0, f_zero ops, 0)
      = Some (sum_list (map quantity (live iv)), foldl (value_step ops) (f_zero ops) (live iv),
              int (length (filter is_low_stock (live iv))))"
    by simp
  have empty: "live iv = []" if "product_count iv = 0"
    using that by (simp add: live_def)
  show ?thesis
    by (auto simp: display_inventory_statistics_def loop empty)
qed

theorem statistics_figures_witness:
  "in_int 0 \<and> in_int 10 \<and> in_int (10 + 3)
   \<and> display_inventory_statistics centi_ops (ex_invent [ex_prod ''Rice'' ''P001'' 10, ex_prod ''Oil'' ''P002'' 3])
       = Some \<lparr> n_products = 2, total_qty = 13, total_value = 650000, average_price = 50000,
                low_stock_count = 1, percent = Some 5000 \<rparr>
   \<and> display_inventory_statistics centi_ops (ex_invent [])
       = Some \<lparr> n_products = 0, total_qty = 0, total_value = 0, average_price = 0,
                low_stock_count = 0, percent = None \<rparr>"
proof -
  let ?iv = "ex_invent [ex_prod ''Rice'' ''P001'' 10, ex_prod ''Oil'' ''P002'' 3]"
  have h: "\<forall>k\<le>length (live ?iv). in_int (sum_list (map quantity (take k (live ?iv))))"
  proof (intro allI impI)
    fix k assume "k \<le> length (live ?iv)"
    then have "k = 0 \<or> k = 1 \<or> k = 2" by auto
    then show "in_int (sum_list (map quantity (take k (live ?iv))))"
      by (auto simp: in_int_def ex_prod_def)
  qed
  have h0: "\<forall>k\<le>length (live (ex_invent [] :: int Invent)).
      in_int (sum_list (map quantity (take k (live (ex_invent [] :: int Invent)))))"
    by (simp add: in_int_def)
  obtain s where s: "display_inventory_statistics centi_ops ?iv = Some s"
    using statistics_figures [OF h, of centi_ops] by (auto split: option.splits)
  with statistics_figures [OF h, of centi_ops]
  have "s = \<lparr> n_products = 2, total_qty = 13, total_value = 650000, average_price = 50000,
                low_stock_count = 1, percent = Some 5000 \<rparr>"
    by (cases s) (simp add: ex_prod_def value_step_def centi_ops_def is_low_stock_def)
  moreover
  obtain s0 where s0: "display_inventory_statistics centi_ops (ex_invent [] :: int Invent) = Some s0"
    using statistics_figures [OF h0, of centi_ops] by (auto split: option.splits)
  with statistics_figures [OF h0, of centi_ops]
  have "s0 = \<lparr> n_products = 0, total_qty = 0, total_value = 0, average_price = 0,
                low_stock_count = 0, percent = None \<rparr>"
    by (cases s0) (simp add: centi_ops_def)
  moreover have "in_int 0 \<and> in_int 10 \<and> in_int (10 + 3)"
    by (simp add: in_int_def)
  ultimately show ?thesis using s s0 by simp
qed

text \<open>
  A negative total is not zero, yet the average stays \<open>0.0\<close>: one product entered with
  quantity \<open>-2\<close>.
\<close>

theorem statistics_negative_total_counterexample:
  "(case display_inventory_statistics centi_ops (ex_invent [ex_prod ''Rice'' ''P001'' (- 2)]) of
      None \<Rightarrow> False
    | Some s \<Rightarrow> total_qty s = - 2 \<and> total_qty s \<noteq> 0 \<and> average_price s = f_zero centi_ops
        \<and> f_div centi_ops (total_value s) (f_of_int centi_ops (total_qty s)) = 50000
        \<and> average_price s \<noteq> f_div centi_ops (total_value s) (f_of_int centi_ops (total_qty s)))"
  by (simp add: display_inventory_statistics_def ex_prod_def in_int_def centi_ops_def is_low_stock_def
      value_step_def)


section \<open>The change log\<close>

text \<open>
  Claim C9. Whenever \<open>log_inventory_change\<close> appends to the log, the line is
  \<open>[timestamp] ACTION: name (ID: id, Qty: qty, Price: price)\<close> with the timestamp in the
  form \<open>YYYY-MM-DD HH:MM:SS\<close>: an \<open>ADDED\<close> line shows the record after the change, a
  \<open>DELETED\<close> line the record before it, and a \<open>MODIFIED\<close> line is the reduced form
  \<open>[timestamp] MODIFIED: name (ID: id)\<close> of the record after the change, without quantity
  and price.
\<close>

theorem log_inventory_change_line:
  assumes "log_writable w" and "wf_tm (now w)"
  shows "strftime_20 (now w)
           = printf_d (tm_year (now w) + 1900) @ ''-'' @ printf_0d 2 (tm_mon (now w) + 1) @ ''-''
             @ printf_0d 2 (tm_mday (now w)) @ '' '' @ printf_0d 2 (tm_hour (now w)) @ '':''
             @ printf_0d 2 (tm_min (now w)) @ '':'' @ printf_0d 2 (tm_sec (now w))
       \<and> digits 4 (printf_d (tm_year (now w) + 1900)) \<and> digits 2 (printf_0d 2 (tm_mon (now w) + 1))
       \<and> digits 2 (printf_0d 2 (tm_mday (now w))) \<and> digits 2 (printf_0d 2 (tm_hour (now w)))
       \<and> digits 2 (printf_0d 2 (tm_min (now w))) \<and> digits 2 (printf_0d 2 (tm_sec (now w)))
       \<and> log_file (log_inventory_change ops ADD_PRODUCT b (Some a) w)
           = Some (log_old w @ ''['' @ strftime_20 (now w) @ ''] ADDED: '' @ name a @ '' (ID: ''
                   @ id_c a @ '', Qty: '' @ printf_d (quantity a) @ '', Price: ''
                   @ f_printf2 ops (price a) @ '')'' @ [newline])
       \<and> log_file (log_inventory_change ops DELETE_PRODUCT (Some d) x w)
           = Some (log_old w @ ''['' @ strftime_20 (now w) @ ''] DELETED: '' @ name d @ '' (ID: ''
                   @ id_c d @ '', Qty: '' @ printf_d (quantity d) @ '', Price: ''
                   @ f_printf2 ops (price d) @ '')'' @ [newline])
       \<and> log_file (log_inventory_change ops MODIFY_PRODUCT (Some d) (Some a) w)
           = Some (log_old w @ ''['' @ strftime_20 (now w) @ ''] MODIFIED: '' @ name a @ '' (ID: ''
                   @ id_c a @ '')'' @ [newline])"
proof -
  let ?t = "now w"
  from assms(2) have d: "digits 4 (printf_d (tm_year ?t + 1900))" "digits 2 (printf_0d 2 (tm_mon ?t + 1))"
    "digits 2 (printf_0d 2 (tm_mday ?t))" "digits 2 (printf_0d 2 (tm_hour ?t))"
    "digits 2 (printf_0d 2 (tm_min ?t))" "digits 2 (printf_0d 2 (tm_sec ?t))"
    by (simp_all add: wf_tm_def digits_year digits_two)
  then have "length (timestamp_text ?t) = 19"
    by (simp add: timestamp_text_def digits_def)
  then have ts: "strftime_20 ?t = timestamp_text ?t"
    by (simp add: strftime_20_def)
  have add: "log_text ops ts ADD_PRODUCT b (Some a) = log_entry_full ops ts ''ADDED'' a" for ts
    by (simp add: log_text_def action_name_def split: option.splits)
  have del: "log_text ops ts DELETE_PRODUCT (Some d) x = log_entry_full ops ts ''DELETED'' d" for ts
    by (simp add: log_text_def action_name_def split: option.splits)
  have mod: "log_text ops ts MODIFY_PRODUCT (Some d) (Some a) = log_entry_short ts ''MODIFIED'' a" for ts
    by (simp add: log_text_def action_name_def)
  show ?thesis
    using assms(1) d
    by (simp add: ts [unfolded timestamp_text_def] log_inventory_change_def add del mod
        log_entry_full_def log_entry_short_def log_old_def)
qed


theorem log_inventory_change_line_witness:
  "log_writable (ex_world []) \<and> wf_tm (now (ex_world []))
   \<and> strftime_20 (now (ex_world [])) = ''2025-01-07 09:05:03''
   \<and> log_file (log_inventory_change centi_ops ADD_PRODUCT None (Some (ex_prod ''Rice'' ''P001'' 10)) (ex_world []))
       = Some (''[2025-01-07 09:05:03] ADDED: Rice (ID: P001, Qty: 10, Price: 500.00)'' @ [newline])
   \<and> log_file (log_inventory_change centi_ops MODIFY_PRODUCT (Some (ex_prod ''Rice'' ''P001'' 10))
                 (Some (ex_prod ''Riz'' ''P001'' 5)) (ex_world []))
       = Some (''[2025-01-07 09:05:03] MODIFIED: Riz (ID: P001)'' @ [newline])"
proof -
  have h1: "log_writable (ex_world [])" by (simp add: ex_world_def)
  have h2: "wf_tm (now (ex_world []))" by (simp add: ex_world_def wf_tm_def)
  have n: "now (ex_world []) = \<lparr> tm_year = 125, tm_mon = 0, tm_mday = 7, tm_hour = 9, tm_min = 5, tm_sec = 3 \<rparr>"
    by (simp add: ex_world_def)
  have t: "printf_d 2025 = ''2025''" "printf_0d 2 1 = ''01''" "printf_0d 2 7 = ''07''"
    "printf_0d 2 9 = ''09''" "printf_0d 2 5 = ''05''" "printf_0d 2 3 = ''03''"
    "printf_d 10 = ''10''" "centi_printf2 50000 = ''500.00''"
    by (simp_all add: text_eval)
  have o: "log_old (ex_world []) = []" by (simp add: log_old_def ex_world_def)
  have ts: "strftime_20 (now (ex_world [])) = ''2025-01-07 09:05:03''"
    by (simp add: strftime_20_def timestamp_text_def n t)
  from log_inventory_change_line [OF h1 h2, where ops = centi_ops and a = "ex_prod ''Rice'' ''P001'' 10"
      and b = None and d = "ex_prod ''Rice'' ''P001'' 10" and x = None]
  have a: "log_file (log_inventory_change centi_ops ADD_PRODUCT None (Some (ex_prod ''Rice'' ''P001'' 10)) (ex_world []))
       = Some (''[2025-01-07 09:05:03] ADDED: Rice (ID: P001, Qty: 10, Price: 500.00)'' @ [newline])"
    by (simp add: ts t o ex_prod_def centi_ops_def)
  from log_inventory_change_line [OF h1 h2, where ops = centi_ops and a = "ex_prod ''Riz'' ''P001'' 5"
      and b = None and d = "ex_prod ''Rice'' ''P001'' 10" and x = None]
  have m: "log_file (log_inventory_change centi_ops MODIFY_PRODUCT (Some (ex_prod ''Rice'' ''P001'' 10))
                 (Some (ex_prod ''Riz'' ''P001'' 5)) (ex_world []))
       = Some (''[2025-01-07 09:05:03] MODIFIED: Riz (ID: P001)'' @ [newline])"
    by (simp add: ts t o ex_prod_def centi_ops_def)
  from h1 h2 ts a m show ?thesis by blast
qed


section \<open>Reading text files\<close>

lemma takeWhile_upto:
  "x \<notin> set l \<Longrightarrow> takeWhile (\<lambda>c. c \<noteq> x) (l @ x # r) = l"
  by (induction l) auto

lemma takeWhile_whole:
  "x \<notin> set l \<Longrightarrow> takeWhile (\<lambda>c. c \<noteq> x) l = l"
  by (induction l) auto

lemma dropWhile_upto:
  "x \<notin> set l \<Longrightarrow> dropWhile (\<lambda>c. c \<noteq> x) (l @ x # r) = x # r"
  by (induction l) auto

lemma fgets_line:
  assumes "newline \<notin> set l" "length l \<le> 254"
  shows "fgets 256 (l @ newline # rest) = Some (l @ [newline], rest)"
proof -
  define s where "s = l @ newline # rest"
  have win: "take (256 - 1) s = l @ newline # take (254 - length l) rest"
    using assms(2) by (simp add: s_def take_Cons')
  have pre: "takeWhile (\<lambda>c. c \<noteq> newline) (take (256 - 1) s) = l"
    unfolding win using assms(1) by (rule takeWhile_upto)
  have k: "length l < length (take (256 - 1) s)"
    unfolding win by simp
  have ne: "s \<noteq> []" by (simp add: s_def)
  have td: "take (Suc (length l)) s = l @ [newline]" "drop (Suc (length l)) s = rest"
    by (simp_all add: s_def)
  have "fgets 256 s = Some (take (Suc (length l)) s, drop (Suc (length l)) s)"
    unfolding fgets_def Let_def pre using ne k by simp
  then show ?thesis unfolding td by (simp add: s_def)
qed

lemma fgets_last:
  assumes "newline \<notin> set l" "length l \<le> 255" "l \<noteq> []"
  shows "fgets 256 l = Some (l, [])"
proof -
  have win: "take (256 - 1) l = l" using assms(2) by simp
  have pre: "takeWhile (\<lambda>c. c \<noteq> newline) l = l"
    using assms(1) by (rule takeWhile_whole)
  show ?thesis
    unfolding fgets_def Let_def win pre using assms(3) by simp
qed

lemma fgets_all_Nil: "fgets_all [] = []"
  by (subst fgets_all.simps) (simp add: fgets_def)

lemma fgets_all_lines:
  "\<forall>l\<in>set ls. newline \<notin> set l \<and> length l \<le> 254 \<Longrightarrow>
   fgets_all (concat (map (\<lambda>l. l @ [newline]) ls)) = map (\<lambda>l. l @ [newline]) ls"
proof (induction ls)
  case Nil
  then show ?case by (simp add: fgets_all_Nil)
next
  case (Cons l ls)
  then have "fgets 256 (l @ newline # concat (map (\<lambda>l. l @ [newline]) ls))
      = Some (l @ [newline], concat (map (\<lambda>l. l @ [newline]) ls))"
    by (intro fgets_line) simp_all
  with Cons show ?case
    by (subst fgets_all.simps) simp
qed

lemma read_log_fgets_all:
  "read_log content acc = acc @ take (100 - length acc) (fgets_all content)"
proof (induction content acc rule: read_log.induct)
  case (1 content acc)
  show ?case
  proof (cases "fgets 256 content")
    case None
    then show ?thesis
      by (subst read_log.simps, subst fgets_all.simps) simp
  next
    case (Some a)
    obtain l rest where a: "a = (l, rest)" by (cases a)
    show ?thesis
    proof (cases "length acc < 100")
      case True
      then have "100 - length acc = Suc (100 - length (acc @ [l]))" by simp
      with "1.IH" [OF Some a [symmetric] True] Some a True show ?thesis
        by (subst read_log.simps, subst fgets_all.simps) simp
    next
      case False
      with Some a show ?thesis
        by (subst read_log.simps) simp
    qed
  qed
qed

section \<open>Modifying a product\<close>

text \<open>
  \<open>%s\<close> skips white space, newlines included, and stores a token of at least one
  character, so the test \<open>strlen(buffer) > 0\<close> passes after every successful read.
\<close>

lemma scanf_s_never_empty:
  "fst (scanf_s width s) = Some tok \<Longrightarrow> 0 < width \<Longrightarrow> tok \<noteq> []"
proof -
  assume a: "fst (scanf_s width s) = Some tok" "0 < width"
  let ?s0 = "dropWhile isspace s"
  from a(1) have ne: "?s0 \<noteq> []" and tok: "tok = takeWhile (\<lambda>c. \<not> isspace c) (take width ?s0)"
    by (auto simp: scanf_s_def Let_def split: if_splits)
  from ne have "\<not> isspace (hd ?s0)" by (rule hd_dropWhile)
  with ne a(2) show ?thesis
    unfolding tok by (cases ?s0; cases width) auto
qed

lemma modify_product_found:
  assumes "search_product_by_id iv ident = int i" "i < product_count iv"
    "product_count iv \<le> length (products iv)"
  shows "\<exists>w'. modify_product ops iv ident w j
           = (1, iv\<lparr>products := (products iv)[i := fst (edit_fields ops (live iv ! i) (stdin w) j)]\<rparr>, w')"
proof -
  have "products iv ! i = live iv ! i"
    using assms(2) by (simp add: live_def)
  then show ?thesis
    using assms(1) by (simp add: modify_product_def Let_def split_beta)
qed

lemma live_update:
  "live (iv\<lparr>products := (products iv)[i := p]\<rparr>) = (live iv)[i := p]"
  by (simp add: live_def take_update_swap)

lemma edit_fields_frame:
  "id_c (fst (edit_fields ops p input j)) = id_c p \<and> date (fst (edit_fields ops p input j)) = date p"
  by (simp add: edit_fields_def Let_def split_beta)

text \<open>
  What holds of every edit: the call returns 1, the count stays, only the record found
  changes, and its id and date are kept.
\<close>

lemma modify_product_frame:
  assumes "ident \<in> id_c ` set (live iv)" and "product_count iv \<le> length (products iv)"
  shows "case modify_product ops iv ident w j of (r, iv', w') \<Rightarrow>
           r = 1 \<and> product_count iv' = product_count iv
         \<and> (\<exists>i<product_count iv. search_product_by_id iv ident = int i
               \<and> live iv' = (live iv)[i := fst (edit_fields ops (live iv ! i) (stdin w) j)]
               \<and> id_c (live iv' ! i) = id_c (live iv ! i) \<and> date (live iv' ! i) = date (live iv ! i))"
proof -
  from assms(1) have ne: "search_product_by_id iv ident \<noteq> -1"
    by (simp add: search_not_found)
  from search_found [OF ne] obtain i where i: "i < length (live iv)"
    "search_product_by_id iv ident = int i" by blast
  from i(1) assms(2) have lt: "i < product_count iv" by (simp add: length_live)
  from modify_product_found [OF i(2) lt assms(2), where ops = ops and w = w and j = j]
  obtain w' where m: "modify_product ops iv ident w j
      = (1, iv\<lparr>products := (products iv)[i := fst (edit_fields ops (live iv ! i) (stdin w) j)]\<rparr>, w')"
    by blast
  show ?thesis
    using lt i edit_fields_frame [of ops "live iv ! i" "stdin w" j]
    by (auto simp: m live_update)
qed

lemma edit_fields_blank_name:
  "fst (edit_fields centi_ops (ex_prod ''Rice'' ''P001'' 10) blank_name_input ex_junk)
     = \<lparr> name = ''Grains'', id_c = ''P001'', category = ''-1'', quantity = 10, price = 50000,
         date = ''2025-01-07'', min_stock = 5 \<rparr>"
  by (simp add: edit_fields_def blank_name_input_def scanf_s_def scan_f_def stored_def ex_prod_def
      centi_ops_def scan_eval newline_def)

text \<open>
  Claim C7 says that an empty entry for the name keeps the name. On the session above
  \<open>modify_product\<close> does not: the blank line is skipped, \<open>Grains\<close> becomes the name and
  the first \<open>-1\<close> the category, while quantity, price and threshold keep their values.
\<close>

theorem modify_product_blank_name_entry:
  "(case modify_product centi_ops (ex_invent [ex_prod ''Rice'' ''P001'' 10]) ''P001''
           (ex_world blank_name_input) ex_junk of
      (r, iv', w') \<Rightarrow>
        r = 1 \<and> live iv' = [\<lparr> name = ''Grains'', id_c = ''P001'', category = ''-1'', quantity = 10,
                              price = 50000, date = ''2025-01-07'', min_stock = 5 \<rparr>])"
proof -
  let ?iv = "ex_invent [ex_prod ''Rice'' ''P001'' 10]"
  have s: "search_product_by_id ?iv ''P001'' = int 0"
    by (simp add: search_product_by_id_def ex_prod_def)
  have c: "0 < product_count ?iv" "product_count ?iv \<le> length (products ?iv)"
    by (simp_all add: ex_invent_def Max_c_def)
  have i: "stdin (ex_world blank_name_input) = blank_name_input"
    by (simp add: ex_world_def)
  from modify_product_found [OF s c, where ops = centi_ops and w = "ex_world blank_name_input" and j = ex_junk]
  obtain w' where "modify_product centi_ops ?iv ''P001'' (ex_world blank_name_input) ex_junk
      = (1, ?iv\<lparr>products := (products ?iv)[0 := fst (edit_fields centi_ops (live ?iv ! 0) blank_name_input ex_junk)]\<rparr>, w')"
    unfolding i by blast
  then show ?thesis
    by (simp add: live_update edit_fields_blank_name)
qed

section \<open>Recent changes\<close>

text \<open>
  While the log has at most 100 lines (each within the buffer), the lines shown are its
  last \<open>n\<close>, in order.
\<close>

lemma recent_lines_short_log:
  assumes "\<forall>l\<in>set ls. newline \<notin> set l \<and> NUL \<notin> set l \<and> length l \<le> 254"
    and "length ls \<le> 100" and "0 \<le> n"
  shows "recent_lines n (concat (map (\<lambda>l. l @ [newline]) ls))
           = map (\<lambda>l. l @ [newline]) (drop (length ls - nat n) ls)"
proof -
  have ok: "\<forall>l\<in>set ls. newline \<notin> set l \<and> length l \<le> 254" using assms(1) by blast
  have f: "fgets_all (concat (map (\<lambda>l. l @ [newline]) ls)) = map (\<lambda>l. l @ [newline]) ls"
    using ok by (rule fgets_all_lines)
  have st: "nat (if int (length ls) > n then int (length ls) - n else 0) = length ls - nat n"
    using assms(3) by auto
  have cs: "c_str (l @ [newline]) = l @ [newline]" if "l \<in> set ls" for l
    using that assms(1) by (simp add: c_str_def takeWhile_whole newline_def NUL_def)
  have m: "map c_str (drop (length ls - nat n) (map (\<lambda>l. l @ [newline]) ls))
      = map (\<lambda>l. l @ [newline]) (drop (length ls - nat n) ls)"
    using cs by (auto simp: drop_map dest: in_set_dropD)
  have rl: "read_log (concat (map (\<lambda>l. l @ [newline]) ls)) [] = map (\<lambda>l. l @ [newline]) ls"
    using assms(2) by (simp add: read_log_fgets_all f)
  have "recent_lines n (concat (map (\<lambda>l. l @ [newline]) ls))
      = map c_str (drop (nat (if int (length ls) > n then int (length ls) - n else 0))
          (map (\<lambda>l. l @ [newline]) ls))"
    unfolding recent_lines_def rl Let_def by simp
  also have "\<dots> = map c_str (drop (length ls - nat n) (map (\<lambda>l. l @ [newline]) ls))"
    by (simp only: st)
  finally show ?thesis by (simp only: m)
qed

text \<open>
  From 100 lines on, the lines shown are the last \<open>n\<close> of the first 100, whatever
  follows them in the log.
\<close>

lemma recent_lines_long_log:
  assumes "\<forall>l\<in>set ls. newline \<notin> set l \<and> NUL \<notin> set l \<and> length l \<le> 254"
    and "100 \<le> length ls" and "0 \<le> n"
  shows "recent_lines n (concat (map (\<lambda>l. l @ [newline]) ls))
           = map (\<lambda>l. l @ [newline]) (drop (100 - nat n) (take 100 ls))"
proof -
  have ok: "\<forall>l\<in>set (take 100 ls). newline \<notin> set l \<and> NUL \<notin> set l \<and> length l \<le> 254"
    using assms(1) by (auto dest: in_set_takeD)
  have f: "fgets_all (concat (map (\<lambda>l. l @ [newline]) ls)) = map (\<lambda>l. l @ [newline]) ls"
    using assms(1) by (intro fgets_all_lines) blast
  have rl: "read_log (concat (map (\<lambda>l. l @ [newline]) ls)) [] = map (\<lambda>l. l @ [newline]) (take 100 ls)"
    by (simp add: read_log_fgets_all f take_map)
  have len: "length (map (\<lambda>l. l @ [newline]) (take 100 ls)) = 100"
    using assms(2) by simp
  have st: "nat (if (100::int) > n then 100 - n else 0) = 100 - nat n"
    using assms(3) by auto
  have cs: "c_str (l @ [newline]) = l @ [newline]" if "l \<in> set (take 100 ls)" for l
    using that ok by (simp add: c_str_def takeWhile_whole newline_def NUL_def)
  have m: "map c_str (drop (100 - nat n) (map (\<lambda>l. l @ [newline]) (take 100 ls)))
      = map (\<lambda>l. l @ [newline]) (drop (100 - nat n) (take 100 ls))"
    using cs by (auto simp: drop_map dest: in_set_dropD)
  have "recent_lines n (concat (map (\<lambda>l. l @ [newline]) ls))
      = map c_str (drop (nat (if (100::int) > n then 100 - n else 0))
          (map (\<lambda>l. l @ [newline]) (take 100 ls)))"
    unfolding recent_lines_def rl Let_def len by simp
  also have "\<dots> = map c_str (drop (100 - nat n) (map (\<lambda>l. l @ [newline]) (take 100 ls)))"
    by (simp only: st)
  finally show ?thesis by (simp only: m)
qed

text \<open>
  Claim C8 says that \<open>display_recent_changes\<close> shows the last \<open>n\<close> lines of the log. On a
  log of 101 lines (100 times \<open>old\<close>, then \<open>new\<close>) and \<open>n = 1\<close> it shows the 100th line,
  \<open>old\<close>: the array takes the first 100 lines and the rest of the log is never read.
\<close>

theorem recent_changes_beyond_100_lines:
  "recent_lines 1 (concat (map (\<lambda>l. l @ [newline]) (replicate 100 ''old'' @ [''new''])))
     = [''old'' @ [newline]]"
proof -
  let ?ls = "replicate 100 ''old'' @ [''new'']"
  have "\<forall>l\<in>set ?ls. newline \<notin> set l \<and> length l \<le> 254"
    by (auto simp: newline_def)
  then have f: "fgets_all (concat (map (\<lambda>l. l @ [newline]) ?ls)) = map (\<lambda>l. l @ [newline]) ?ls"
    by (rule fgets_all_lines)
  show ?thesis
    unfolding recent_lines_def read_log_fgets_all f
    by (simp add: Let_def c_str_def NUL_def newline_def)
qed


section \<open>Loading the store\<close>

lemma load_loop_live:
  assumes "wf_invent iv" and "\<forall>l\<in>set (fgets_all content). ints_ok ops (strip_newline l)"
  shows "\<exists>iv'. load_loop ops content iv = Some iv' \<and> wf_invent iv' \<and>
     live iv' = take Max_c (live iv @ List.map_filter (\<lambda>l. sscanf_prod ops (strip_newline l)) (fgets_all content))"
  using assms
proof (induction ops content iv rule: load_loop.induct)
  case (1 ops content iv)
  from "1.prems"(1) have len: "length (live iv) = product_count iv" and le: "product_count iv \<le> Max_c"
    and arr: "length (products iv) = Max_c"
    by (simp_all add: wf_invent_def live_def)
  show ?case
  proof (cases "fgets 256 content")
    case None
    then show ?thesis
      using "1.prems"(1) len le
      by (subst load_loop.simps, subst fgets_all.simps) simp
  next
    case (Some a)
    obtain line rest where a: "a = (line, rest)" by (cases a)
    have chunks: "fgets_all content = line # fgets_all rest"
      using Some a by (subst fgets_all.simps) simp
    with "1.prems"(2) have here: "ints_ok ops (strip_newline line)"
      and later: "\<forall>l\<in>set (fgets_all rest). ints_ok ops (strip_newline l)" by simp_all
    show ?thesis
    proof (cases "product_count iv < Max_c")
      case False
      with le have "length (live iv) = Max_c" using len by simp
      then show ?thesis
        using "1.prems"(1) Some a False
        by (subst load_loop.simps) simp
    next
      case True
      show ?thesis
      proof (cases "sscanf_prod ops (strip_newline line)")
        case None
        from "1.IH"(1) [OF Some a [symmetric] True None "1.prems"(1) later] show ?thesis
          using Some a True None
          by (subst load_loop.simps) (simp add: chunks)
      next
        case (Some p)
        from here Some have ok: "ints_stored p" by (simp add: ints_ok_def)
        have wf': "wf_invent (append_prod iv p)"
          using "1.prems"(1) True by (rule wf_append_prod)
        have lv: "live (append_prod iv p) = live iv @ [p]"
          using True arr by (simp add: live_append_prod)
        from "1.IH"(2) [OF \<open>fgets 256 content = Some a\<close> a [symmetric] True Some ok wf' later] show ?thesis
          using \<open>fgets 256 content = Some a\<close> a True Some ok lv
          by (subst load_loop.simps) (simp add: chunks)
      qed
    qed
  qed
qed

lemma strip_newline_last:
  assumes "newline \<notin> set l"
  shows "strip_newline l = c_str l"
proof -
  have "newline \<notin> set (c_str l)"
    using assms by (auto simp: c_str_def dest: set_takeWhileD)
  then show ?thesis
    unfolding strip_newline_def by (rule takeWhile_whole)
qed

lemma strip_newline_line:
  assumes "newline \<notin> set l"
  shows "strip_newline (l @ [newline]) = c_str l"
proof (cases "NUL \<in> set l")
  case True
  then have "c_str (l @ [newline]) = c_str l"
    by (simp add: c_str_def)
  then show ?thesis
    using strip_newline_last [OF assms] by (simp add: strip_newline_def)
next
  case False
  then have c: "c_str l = l" "c_str (l @ [newline]) = l @ [newline]"
    by (simp_all add: c_str_def takeWhile_whole newline_def NUL_def)
  show ?thesis
    unfolding strip_newline_def c using assms by (rule takeWhile_upto)
qed

lemma strip_newline_plain:
  assumes "newline \<notin> set l" "NUL \<notin> set l"
  shows "strip_newline (l @ [newline]) = l"
proof -
  have "c_str l = l" unfolding c_str_def using assms(2) by (rule takeWhile_whole)
  with strip_newline_line [OF assms(1)] show ?thesis by simp
qed

lemma lines_of_Nil: "lines_of [] = []"
  by (subst lines_of.simps) simp

lemma takeWhile_dropWhile_split:
  "dropWhile (\<lambda>c. c \<noteq> x) s = [] \<or> (\<exists>r. dropWhile (\<lambda>c. c \<noteq> x) s = x # r)"
  by (induction s) auto

lemma fgets_all_lines_of:
  "\<forall>l\<in>set (lines_of content). length l \<le> 254 \<Longrightarrow>
   map strip_newline (fgets_all content) = map c_str (lines_of content)"
proof (induction content rule: lines_of.induct)
  case (1 s)
  show ?case
  proof (cases "s = []")
    case True
    then show ?thesis by (simp add: lines_of_Nil fgets_all_Nil)
  next
    case False
    let ?l = "takeWhile (\<lambda>c. c \<noteq> newline) s"
    let ?d = "dropWhile (\<lambda>c. c \<noteq> newline) s"
    have lo: "lines_of s = ?l # lines_of (drop 1 ?d)"
      using False by (subst lines_of.simps) simp
    have nl: "newline \<notin> set ?l"
      by (metis (mono_tags, lifting) set_takeWhileD)
    from "1.prems" lo have short: "length ?l \<le> 254"
      and rest: "\<forall>l\<in>set (lines_of (drop 1 ?d)). length l \<le> 254" by simp_all
    have ih: "map strip_newline (fgets_all (drop 1 ?d)) = map c_str (lines_of (drop 1 ?d))"
      using "1.IH" [OF False rest] .
    have s: "s = ?l @ ?d" by simp
    from takeWhile_dropWhile_split [of newline s] show ?thesis
    proof
      assume e: "?d = []"
      then have ns: "newline \<notin> set s"
        by auto
      then have ls: "?l = s" by (rule takeWhile_whole)
      with short have "length s \<le> 255" by simp
      with ns False have "fgets 256 s = Some (s, [])"
        by (intro fgets_last)
      then have "fgets_all s = [s]"
        by (subst fgets_all.simps) (simp add: fgets_all_Nil)
      moreover have "strip_newline s = c_str s"
        using ns by (rule strip_newline_last)
      ultimately show ?thesis
        using lo e ls by (simp add: lines_of_Nil)
    next
      assume "\<exists>r. ?d = newline # r"
      then obtain r where r: "?d = newline # r" by blast
      with s have sl: "s = ?l @ newline # r" by simp
      have "fgets 256 (?l @ newline # r) = Some (?l @ [newline], r)"
        using nl short by (rule fgets_line)
      with sl have "fgets 256 s = Some (?l @ [newline], r)" by metis
      then have "fgets_all s = (?l @ [newline]) # fgets_all r"
        by (subst fgets_all.simps) simp
      then show ?thesis
        using lo ih r by (simp add: strip_newline_line [OF nl])
    qed
  qed
qed

lemma map_filter_map:
  "List.map_filter f (map g xs) = List.map_filter (\<lambda>x. f (g x)) xs"
  by (induction xs) (simp_all split: option.splits)

lemma map_filter_all_Some:
  "\<forall>x\<in>set xs. f x = Some (g x) \<Longrightarrow> List.map_filter f xs = map g xs"
  by (induction xs) simp_all

lemma load_inventory_live:
  assumes "wf_invent iv" and "data_file w = Some content"
    and "\<forall>l\<in>set (fgets_all content). ints_ok ops (strip_newline l)"
  shows "\<exists>iv'. load_inventory ops iv w = Some (1, iv') \<and> wf_invent iv'
       \<and> live iv' = take Max_c (List.map_filter (\<lambda>l. sscanf_prod ops (strip_newline l)) (fgets_all content))"
proof -
  have wf0: "wf_invent (iv\<lparr>product_count := 0\<rparr>)"
    using assms(1) by (simp add: wf_invent_def)
  have l0: "live (iv\<lparr>product_count := 0\<rparr>) = []"
    by (simp add: live_def)
  from load_loop_live [OF wf0 assms(3)] obtain iv' where
    "load_loop ops content (iv\<lparr>product_count := 0\<rparr>) = Some iv'" "wf_invent iv'"
    "live iv' = take Max_c (List.map_filter (\<lambda>l. sscanf_prod ops (strip_newline l)) (fgets_all content))"
    unfolding l0 by auto
  then show ?thesis
    using assms(2) by (simp add: load_inventory_def)
qed

lemma lines_of_line:
  assumes "newline \<notin> set l"
  shows "lines_of (l @ newline # r) = l # lines_of r"
proof -
  have "takeWhile (\<lambda>c. c \<noteq> newline) (l @ newline # r) = l"
    using assms by (rule takeWhile_upto)
  moreover have "dropWhile (\<lambda>c. c \<noteq> newline) (l @ newline # r) = newline # r"
    using assms by (rule dropWhile_upto)
  ultimately show ?thesis
    by (subst lines_of.simps) simp
qed

lemma lines_of_last:
  assumes "newline \<notin> set l" "l \<noteq> []"
  shows "lines_of l = [l]"
proof -
  have tw: "takeWhile (\<lambda>c. c \<noteq> newline) l = l"
    using assms(1) by (rule takeWhile_whole)
  have dw: "dropWhile (\<lambda>c. c \<noteq> newline) l = []"
    using assms(1) by auto
  show ?thesis
    by (subst lines_of.simps) (simp only: assms(2) tw dw if_False drop.simps lines_of_Nil)
qed

lemma replicate_255: "replicate 255 x = x # replicate 254 x"
  by (simp flip: replicate_Suc)

lemmas sscanf_eval = sscanf_prod_def scanset_def literal_def conv_def scan_f_def comma_def newline_def
  scan_eval centi_ops_def

lemma scanset_Some:
  assumes "scanset width ok s = Some (tok, r)"
  shows "tok \<noteq> [] \<and> length tok \<le> width \<and> (\<forall>c\<in>set tok. ok c) \<and> s = tok @ r"
proof -
  from assms have tok: "tok = takeWhile ok (take width s)" and ne: "tok \<noteq> []"
    and r: "r = drop (length tok) s"
    by (auto simp: scanset_def Let_def split: if_splits)
  have "length tok \<le> length (take width s)"
    unfolding tok by (rule length_takeWhile_le)
  then have len: "length tok \<le> width" by simp
  have all: "\<forall>c\<in>set tok. ok c"
    unfolding tok by (auto dest: set_takeWhileD)
  have "takeWhile ok (take width s) = take (length (takeWhile ok (take width s))) (take width s)"
    by (rule takeWhile_eq_take)
  then have "tok = take (length tok) (take width s)"
    by (simp only: tok)
  also have "\<dots> = take (length tok) s"
    using len by (simp add: min_def)
  finally have "tok @ r = s" unfolding r by (metis append_take_drop_id)
  with ne len all show ?thesis by simp
qed

lemma scanset_text_field:
  assumes "scanset width (\<lambda>c. c \<noteq> comma) s = Some (tok, r)"
  shows "text_field width tok"
  using scanset_Some [OF assms] by (auto simp: text_field_def)

lemma scanset_date_field:
  assumes "scanset width (\<lambda>c. c \<noteq> comma \<and> c \<noteq> newline) s = Some (tok, r)"
  shows "text_field width tok \<and> newline \<notin> set tok"
  using scanset_Some [OF assms] by (auto simp: text_field_def)

lemma sscanf_prod_fields:
  assumes "sscanf_prod ops l = Some p"
  shows "text_field 49 (name p) \<and> text_field 9 (id_c p) \<and> text_field 29 (category p)
       \<and> text_field 10 (date p) \<and> newline \<notin> set (date p)"
proof -
  from assms obtain nm r1 r2 ident r3 r4 cat r5 r6 q r7 r8 pr r9 r10 ms r11 r12 dt r13 where
    f: "scanset 49 (\<lambda>c. c \<noteq> comma) l = Some (nm, r1)"
       "scanset 9 (\<lambda>c. c \<noteq> comma) r2 = Some (ident, r3)"
       "scanset 29 (\<lambda>c. c \<noteq> comma) r4 = Some (cat, r5)"
       "scanset 10 (\<lambda>c. c \<noteq> comma \<and> c \<noteq> newline) r12 = Some (dt, r13)"
    and p: "p = \<lparr> name = nm, id_c = ident, category = cat, quantity = q, price = pr,
            date = dt, min_stock = ms \<rparr>"
    unfolding sscanf_prod_def
    by (auto simp: Option.bind_eq_Some_conv)
  from scanset_text_field [OF f(1)] scanset_text_field [OF f(2)] scanset_text_field [OF f(3)]
    scanset_date_field [OF f(4)]
  show ?thesis by (simp add: p)
qed

lemma map_filter_in:
  "x \<in> set (List.map_filter f xs) \<Longrightarrow> \<exists>l\<in>set xs. f l = Some x"
  by (induction xs) (auto split: option.splits)

lemma load_by_lines_fits:
  assumes "\<forall>l\<in>set (lines_of content). ints_ok ops (c_str l)"
  shows "list_all fits_prod (load_by_lines ops content)"
proof -
  have "fits_prod p" if "p \<in> set (load_by_lines ops content)" for p
  proof -
    from that have "p \<in> set (List.map_filter (\<lambda>l. sscanf_prod ops (c_str l)) (lines_of content))"
      unfolding load_by_lines_def by (rule in_set_takeD)
    from map_filter_in [OF this] obtain l where l: "l \<in> set (lines_of content)"
      and sp: "sscanf_prod ops (c_str l) = Some p" by blast
    from assms l sp have "ints_stored p" by (auto simp: ints_ok_def)
    with sscanf_prod_fields [OF sp] show ?thesis by (simp add: fits_prod_def)
  qed
  then show ?thesis by (simp add: list_all_iff)
qed

text \<open>
  Claim C6, as amended. When the store does not exist \<open>load_inventory\<close> returns 0, prints
  nothing and leaves the inventory as it is (empty, when it was freshly initialised).
  Otherwise, on a store whose lines are shorter than 255 characters and whose quantities
  and thresholds are within \<open>int\<close>, it goes through the store line by line, keeps exactly
  the lines on which the seven conversions of the \<open>sscanf\<close> format match, in order, skips
  the others without a message, and stops once 1000 records are loaded; every record it
  keeps has the expected types and field widths.
\<close>

theorem load_inventory_by_lines:
  "(data_file w = None \<longrightarrow>
      load_inventory ops iv w = Some (0, iv)
      \<and> load_inventory ops (init_invent iv) w = Some (0, init_invent iv)
      \<and> product_count (init_invent iv) = 0)
   \<and> (wf_invent iv \<and> data_file w = Some content
        \<and> (\<forall>l\<in>set (lines_of content). length l \<le> 254 \<and> ints_ok ops (c_str l)) \<longrightarrow>
      (\<exists>iv'. load_inventory ops iv w = Some (1, iv')
         \<and> live iv' = load_by_lines ops content
         \<and> product_count iv' = length (load_by_lines ops content)
         \<and> product_count iv' \<le> Max_c
         \<and> list_all fits_prod (live iv')))"
proof (intro conjI impI)
  assume "data_file w = None"
  then show "load_inventory ops iv w = Some (0, iv)"
    and "load_inventory ops (init_invent iv) w = Some (0, init_invent iv)"
    by (simp_all add: load_inventory_def)
next
  show "product_count (init_invent iv) = 0"
    by (simp add: init_invent_def)
next
  assume a: "wf_invent iv \<and> data_file w = Some content
      \<and> (\<forall>l\<in>set (lines_of content). length l \<le> 254 \<and> ints_ok ops (c_str l))"
  then have wf: "wf_invent iv" and df: "data_file w = Some content"
    and short: "\<forall>l\<in>set (lines_of content). length l \<le> 254"
    and ints: "\<forall>l\<in>set (lines_of content). ints_ok ops (c_str l)" by simp_all
  have pieces: "map strip_newline (fgets_all content) = map c_str (lines_of content)"
    by (rule fgets_all_lines_of [OF short])
  have "\<forall>s\<in>set (map c_str (lines_of content)). ints_ok ops s"
    using ints by simp
  then have "\<forall>s\<in>set (map strip_newline (fgets_all content)). ints_ok ops s"
    by (simp only: pieces)
  then have ints': "\<forall>l\<in>set (fgets_all content). ints_ok ops (strip_newline l)"
    by simp
  from load_inventory_live [OF wf df ints'] obtain iv' where
    r: "load_inventory ops iv w = Some (1, iv')" and wf': "wf_invent iv'"
    and lv: "live iv' = take Max_c (List.map_filter (\<lambda>l. sscanf_prod ops (strip_newline l)) (fgets_all content))"
    by blast
  have "List.map_filter (\<lambda>l. sscanf_prod ops (strip_newline l)) (fgets_all content)
      = List.map_filter (sscanf_prod ops) (map strip_newline (fgets_all content))"
    by (simp add: map_filter_map)
  also have "\<dots> = List.map_filter (sscanf_prod ops) (map c_str (lines_of content))"
    by (simp only: pieces)
  also have "\<dots> = List.map_filter (\<lambda>l. sscanf_prod ops (c_str l)) (lines_of content)"
    by (simp add: map_filter_map)
  finally have eq: "live iv' = load_by_lines ops content"
    by (simp add: lv load_by_lines_def)
  from wf' have cnt: "length (live iv') = product_count iv'" and le: "product_count iv' \<le> Max_c"
    by (simp_all add: wf_invent_def live_def)
  have fits: "list_all fits_prod (live iv')"
    unfolding eq by (rule load_by_lines_fits [OF ints])
  from r eq cnt le fits
  show "\<exists>iv'. load_inventory ops iv w = Some (1, iv')
         \<and> live iv' = load_by_lines ops content
         \<and> product_count iv' = length (load_by_lines ops content)
         \<and> product_count iv' \<le> Max_c
         \<and> list_all fits_prod (live iv')"
    by (intro exI [of _ iv']) simp
qed

theorem load_inventory_by_lines_witness:
  "data_file (ex_world []) = None
   \<and> load_inventory centi_ops (ex_invent []) (ex_world []) = Some (0, ex_invent [])
   \<and> wf_invent (ex_invent ([] :: int Prod list))
   \<and> lines_of sample_store
       = [''Rice,P001,Food,10,500.00,5,2025-01-07'', ''not a record'', ''Oil,P002,Food,3,120.50,4,2025-01-08'']
   \<and> ints_ok centi_ops (c_str ''Rice,P001,Food,10,500.00,5,2025-01-07'')
   \<and> ints_ok centi_ops (c_str ''not a record'')
   \<and> ints_ok centi_ops (c_str ''Oil,P002,Food,3,120.50,4,2025-01-08'')
   \<and> map_option (\<lambda>r. (fst r, live (snd r)))
        (load_inventory centi_ops (ex_invent []) ((ex_world [])\<lparr>data_file := Some sample_store\<rparr>))
       = Some (1, [ex_prod ''Rice'' ''P001'' 10,
          \<lparr> name = ''Oil'', id_c = ''P002'', category = ''Food'', quantity = 3, price = 12050,
            date = ''2025-01-08'', min_stock = 4 \<rparr>])"
proof -
  let ?l1 = "''Rice,P001,Food,10,500.00,5,2025-01-07''" and ?l2 = "''not a record''"
    and ?l3 = "''Oil,P002,Food,3,120.50,4,2025-01-08''"
  let ?w = "(ex_world [])\<lparr>data_file := Some sample_store\<rparr>"
  have h0: "data_file (ex_world []) = None" by (simp add: ex_world_def)
  have h1: "wf_invent (ex_invent ([] :: int Prod list))" by (simp add: wf_ex_invent)
  have n: "newline \<notin> set ?l1" "newline \<notin> set ?l2" "newline \<notin> set ?l3"
    by (simp_all add: newline_def)
  have "lines_of (?l1 @ newline # ?l2 @ newline # ?l3) = ?l1 # lines_of (?l2 @ newline # ?l3)"
    using n(1) by (rule lines_of_line)
  also have "lines_of (?l2 @ newline # ?l3) = ?l2 # lines_of ?l3"
    using n(2) by (rule lines_of_line)
  also have "lines_of ?l3 = [?l3]"
    using n(3) by (rule lines_of_last) simp
  finally have lo: "lines_of sample_store = [?l1, ?l2, ?l3]"
    by (simp add: sample_store_def)
  have c: "c_str ?l1 = ?l1" "c_str ?l2 = ?l2" "c_str ?l3 = ?l3"
    by (simp_all add: c_str_def NUL_def)
  have p: "sscanf_prod centi_ops ?l1 = Some (ex_prod ''Rice'' ''P001'' 10)"
    "sscanf_prod centi_ops ?l2 = None"
    "sscanf_prod centi_ops ?l3 = Some \<lparr> name = ''Oil'', id_c = ''P002'', category = ''Food'',
        quantity = 3, price = 12050, date = ''2025-01-08'', min_stock = 4 \<rparr>"
    by (simp_all add: sscanf_eval ex_prod_def)
  have i: "ints_ok centi_ops (c_str ?l1)" "ints_ok centi_ops (c_str ?l2)" "ints_ok centi_ops (c_str ?l3)"
    unfolding c ints_ok_def p by (simp_all add: ints_stored_def in_int_def ex_prod_def)
  have h2: "\<forall>l\<in>set (lines_of sample_store). length l \<le> 254 \<and> ints_ok centi_ops (c_str l)"
    unfolding lo using i by simp
  have spec: "load_by_lines centi_ops sample_store = [ex_prod ''Rice'' ''P001'' 10,
          \<lparr> name = ''Oil'', id_c = ''P002'', category = ''Food'', quantity = 3, price = 12050,
            date = ''2025-01-08'', min_stock = 4 \<rparr>]"
    unfolding load_by_lines_def lo
    by (simp only: map_filter_simps c p option.case) (simp add: Max_c_def)
  have df: "data_file ?w = Some sample_store" by simp
  from load_inventory_by_lines [where w = "ex_world []" and ops = centi_ops and iv = "ex_invent []"] h0
  have a: "load_inventory centi_ops (ex_invent []) (ex_world []) = Some (0, ex_invent [])"
    by blast
  from load_inventory_by_lines [where w = ?w and ops = centi_ops and iv = "ex_invent []"
      and content = sample_store] h1 h2 df
  obtain iv' where "load_inventory centi_ops (ex_invent []) ?w = Some (1, iv')"
    "live iv' = load_by_lines centi_ops sample_store"
    by blast
  then have b: "map_option (\<lambda>r. (fst r, live (snd r))) (load_inventory centi_ops (ex_invent []) ?w)
      = Some (1, load_by_lines centi_ops sample_store)"
    by simp
  from h0 a h1 lo i b show ?thesis
    unfolding spec by simp
qed

text \<open>
  A longer line is read in pieces of 255 characters and each piece is parsed as if it
  were a line: the tail of the long line yields a record although the line as a whole
  does not parse.
\<close>

theorem load_inventory_long_line_counterexample:
  "lines_of long_line_store = [replicate 255 comma @ ''Rice,P001,Food,10,500.00,5,2025-01-07'']
   \<and> load_by_lines centi_ops long_line_store = []
   \<and> map_option (\<lambda>r. (fst r, live (snd r)))
        (load_inventory centi_ops (ex_invent []) ((ex_world [])\<lparr>data_file := Some long_line_store\<rparr>))
       = Some (1, [ex_prod ''Rice'' ''P001'' 10])"
proof -
  let ?good = "''Rice,P001,Food,10,500.00,5,2025-01-07''"
  let ?cs = "replicate 255 comma"
  have nlc: "newline \<notin> set ?cs" by (simp add: newline_def comma_def)
  have nlg: "newline \<notin> set ?good" by (simp add: newline_def)
  have nll: "newline \<notin> set (?cs @ ?good)" using nlc nlg by simp
  have lo: "lines_of long_line_store = [?cs @ ?good]"
  proof -
    have eq: "long_line_store = (?cs @ ?good) @ newline # []" by (simp add: long_line_store_def)
    have a: "takeWhile (\<lambda>c. c \<noteq> newline) long_line_store = ?cs @ ?good"
      by (subst eq) (rule takeWhile_upto [OF nll])
    have b: "dropWhile (\<lambda>c. c \<noteq> newline) long_line_store = [newline]"
      by (subst eq) (rule dropWhile_upto [OF nll])
    have "long_line_store \<noteq> []" by (simp add: long_line_store_def)
    then show ?thesis
      by (subst lines_of.simps) (simp add: a b lines_of_Nil)
  qed
  have "c_str (?cs @ ?good) = comma # c_str (replicate 254 comma @ ?good)"
    by (simp add: replicate_255 c_str_def comma_def NUL_def)
  then have "sscanf_prod centi_ops (c_str (?cs @ ?good)) = None"
    by (simp add: sscanf_prod_def scanset_def comma_def)
  then have spec: "load_by_lines centi_ops long_line_store = []"
    by (simp add: load_by_lines_def lo)
  have f1: "fgets 256 long_line_store = Some (?cs, ?good @ [newline])"
  proof -
    have win: "take (256 - 1) long_line_store = ?cs" by (simp add: long_line_store_def)
    have pre: "takeWhile (\<lambda>c. c \<noteq> newline) ?cs = ?cs" using nlc by (rule takeWhile_whole)
    have td: "take 255 long_line_store = ?cs" "drop 255 long_line_store = ?good @ [newline]"
      by (simp_all add: long_line_store_def)
    have ne: "long_line_store \<noteq> []" by (simp add: long_line_store_def)
    show ?thesis
      unfolding fgets_def Let_def win pre using ne td by simp
  qed
  have f2: "fgets 256 (?good @ newline # []) = Some (?good @ [newline], [])"
    using nlg by (rule fgets_line) simp
  have chunks: "fgets_all long_line_store = [?cs, ?good @ [newline]]"
    using f1 f2 by (subst fgets_all.simps, simp, subst fgets_all.simps, simp add: fgets_all_Nil)
  have "strip_newline ?cs = c_str ?cs" using nlc by (rule strip_newline_last)
  also have "\<dots> = comma # c_str (replicate 254 comma)"
    by (simp add: replicate_255 c_str_def comma_def NUL_def)
  finally have p1: "sscanf_prod centi_ops (strip_newline ?cs) = None"
    by (simp add: sscanf_prod_def scanset_def comma_def)
  have "NUL \<notin> set ?good" by (simp add: NUL_def)
  with nlg have "strip_newline (?good @ [newline]) = ?good"
    by (rule strip_newline_plain)
  moreover have "sscanf_prod centi_ops ?good = Some (ex_prod ''Rice'' ''P001'' 10)"
    by (simp add: sscanf_eval ex_prod_def)
  ultimately have p2: "sscanf_prod centi_ops (strip_newline (?good @ [newline])) = Some (ex_prod ''Rice'' ''P001'' 10)"
    by simp
  have i: "ints_ok centi_ops (strip_newline ?cs)" "ints_ok centi_ops (strip_newline (?good @ [newline]))"
    unfolding ints_ok_def p1 p2 by (simp_all add: ints_stored_def in_int_def ex_prod_def)
  have ints: "\<forall>l\<in>set (fgets_all long_line_store). ints_ok centi_ops (strip_newline l)"
    unfolding chunks using i by simp
  have wf0: "wf_invent (ex_invent ([] :: int Prod list))" by (simp add: wf_ex_invent)
  have df: "data_file ((ex_world [])\<lparr>data_file := Some long_line_store\<rparr>) = Some long_line_store"
    by simp
  have mf: "List.map_filter (\<lambda>l. sscanf_prod centi_ops (strip_newline l)) (fgets_all long_line_store)
      = [ex_prod ''Rice'' ''P001'' 10]"
    by (simp only: chunks map_filter_simps p1 p2 option.case)
  from load_inventory_live [OF wf0 df ints] obtain iv' where
    "load_inventory centi_ops (ex_invent []) ((ex_world [])\<lparr>data_file := Some long_line_store\<rparr>) = Some (1, iv')"
    "live iv' = [ex_prod ''Rice'' ''P001'' 10]"
    unfolding mf by (auto simp: Max_c_def)
  then have "map_option (\<lambda>r. (fst r, live (snd r)))
        (load_inventory centi_ops (ex_invent []) ((ex_world [])\<lparr>data_file := Some long_line_store\<rparr>))
       = Some (1, [ex_prod ''Rice'' ''P001'' 10])"
    by simp
  with lo spec show ?thesis by simp
qed

section \<open>Saving and loading again\<close>

lemma scanset_field:
  assumes "s \<noteq> []" "length s \<le> width" "\<forall>c\<in>set s. ok c" "rest = [] \<or> \<not> ok (hd rest)"
  shows "scanset width ok (s @ rest) = Some (s, rest)"
proof -
  let ?t = "take (width - length s) rest"
  have tk: "take width (s @ rest) = s @ ?t"
    using assms(2) by simp
  have "takeWhile ok ?t = []"
    using assms(4) by (cases rest; cases "width - length s") auto
  then have tw: "takeWhile ok (s @ ?t) = s"
    using assms(3) by simp
  show ?thesis
    unfolding scanset_def Let_def tk tw using assms(1) by simp
qed

lemma literal_Cons: "literal c (c # r) = Some r"
  by (simp add: literal_def)

lemma conv_Some: "conv (Some v, r) = Some (v, r)"
  by (simp add: conv_def)

lemma not_isdigit_comma: "\<not> isdigit comma"
  by (simp add: isdigit_def comma_def)

lemma price_ok_scan:
  assumes "price_ok ops e p"
  shows "scan_f ops (f_printf2 ops (price p) @ price_tail p) = (Some (price (reread ops p)), price_tail p)"
  using assms
  by (cases "scan_f ops (f_printf2 ops (price p) @ price_tail p)")
     (auto simp: price_ok_def Let_def reread_def stored_def split: option.splits)

lemma price_ok_close:
  assumes "price_ok ops e p"
  shows "\<bar>f_val ops (price (reread ops p)) - f_val ops (price p)\<bar> \<le> 1 / 200 + e"
proof -
  define k where "k = text_cents (f_printf2 ops (price p))"
  from assms have a: "\<bar>real_of_int k / 100 - f_val ops (price p)\<bar> \<le> 1 / 200"
    by (simp add: price_ok_def Let_def k_def)
  from assms have b: "\<bar>f_val ops (price (reread ops p)) - real_of_int k / 100\<bar> \<le> e"
    by (cases "scan_f ops (f_printf2 ops (price p) @ price_tail p)")
       (auto simp: price_ok_def Let_def reread_def stored_def k_def split: option.splits)
  from a b show ?thesis by linarith
qed

lemma sscanf_prod_store_fields:
  assumes "storable ops e p"
  shows "sscanf_prod ops (store_fields ops p) = Some (reread ops p)"
proof -
  let ?nc = "\<lambda>c. c \<noteq> comma"
  from assms have nm: "field_ok 49 (name p)" and idf: "field_ok 9 (id_c p)"
    and ct: "field_ok 29 (category p)" and dt: "field_ok 10 (date p)" and pr: "price_ok ops e p"
    by (simp_all add: storable_def)
  define t7 where "t7 = date p"
  define t6 where "t6 = printf_d (min_stock p) @ comma # t7"
  define t5 where "t5 = f_printf2 ops (price p) @ comma # t6"
  define t4 where "t4 = printf_d (quantity p) @ comma # t5"
  define t3 where "t3 = category p @ comma # t4"
  define t2 where "t2 = id_c p @ comma # t3"
  have line: "store_fields ops p = name p @ comma # t2"
    by (simp add: store_fields_def price_tail_def t2_def t3_def t4_def t5_def t6_def t7_def)
  have tail: "price_tail p = comma # t6"
    by (simp add: price_tail_def t6_def t7_def)
  have s1: "scanset 49 ?nc (name p @ comma # t2) = Some (name p, comma # t2)"
    using nm by (intro scanset_field) (auto simp: field_ok_def)
  have s2: "scanset 9 ?nc (id_c p @ comma # t3) = Some (id_c p, comma # t3)"
    using idf by (intro scanset_field) (auto simp: field_ok_def)
  have s3: "scanset 29 ?nc (category p @ comma # t4) = Some (category p, comma # t4)"
    using ct by (intro scanset_field) (auto simp: field_ok_def)
  have s4: "scan_d (printf_d (quantity p) @ comma # t5) = (Some (quantity p), comma # t5)"
    by (intro scan_d_printf_d) (simp add: not_isdigit_comma)
  have s5: "scan_f ops (f_printf2 ops (price p) @ comma # t6) = (Some (price (reread ops p)), comma # t6)"
    using price_ok_scan [OF pr] unfolding tail .
  have s6: "scan_d (printf_d (min_stock p) @ comma # t7) = (Some (min_stock p), comma # t7)"
    by (intro scan_d_printf_d) (simp add: not_isdigit_comma)
  have s7: "scanset 10 (\<lambda>c. c \<noteq> comma \<and> c \<noteq> newline) (date p @ []) = Some (date p, [])"
    using dt by (intro scanset_field) (auto simp: field_ok_def)
  have "sscanf_prod ops (name p @ comma # t2)
      = Some \<lparr> name = name p, id_c = id_c p, category = category p, quantity = quantity p,
               price = price (reread ops p), date = date p, min_stock = min_stock p \<rparr>"
    unfolding sscanf_prod_def s1
    apply (simp only: Option.bind.simps prod.case literal_Cons)
    unfolding t2_def s2
    apply (simp only: Option.bind.simps prod.case literal_Cons)
    unfolding t3_def s3
    apply (simp only: Option.bind.simps prod.case literal_Cons)
    unfolding t4_def s4 conv_Some
    apply (simp only: Option.bind.simps prod.case literal_Cons)
    unfolding t5_def s5 conv_Some
    apply (simp only: Option.bind.simps prod.case literal_Cons)
    unfolding t6_def s6 conv_Some
    apply (simp only: Option.bind.simps prod.case literal_Cons)
    unfolding t7_def using s7
    apply simp
    done
  moreover have "reread ops p = \<lparr> name = name p, id_c = id_c p, category = category p, quantity = quantity p,
               price = price (reread ops p), date = date p, min_stock = min_stock p \<rparr>"
    by (simp add: reread_def)
  ultimately show ?thesis by (simp add: line)
qed

lemma isdigit_not_control: "isdigit c \<Longrightarrow> c \<noteq> newline \<and> c \<noteq> NUL \<and> c \<noteq> comma"
  by (auto simp: isdigit_def newline_def NUL_def comma_def)

lemma printf_d_plain: "newline \<notin> set (printf_d k) \<and> NUL \<notin> set (printf_d k)"
proof -
  have "\<forall>c\<in>set (dec n). c \<noteq> newline \<and> c \<noteq> NUL" for n
    using dec_digits [of n] isdigit_not_control by (auto simp: list_all_iff)
  then show ?thesis
    by (auto simp: printf_d_def newline_def NUL_def)
qed

lemma dec_plain: "c \<in> set (dec n) \<Longrightarrow> c \<noteq> newline \<and> c \<noteq> NUL"
  using dec_digits [of n] isdigit_not_control by (auto simp: list_all_iff)

lemma centi_printf2_plain: "newline \<notin> set (centi_printf2 k) \<and> NUL \<notin> set (centi_printf2 k)"
proof -
  have "c \<noteq> newline \<and> c \<noteq> NUL" if "c \<in> set (zero_pad 2 (dec n))" for c n
    using that dec_plain [of c n] by (auto simp: zero_pad_def newline_def NUL_def)
  then show ?thesis
    using dec_plain [of _ "nat \<bar>k\<bar> div 100"]
    by (auto simp: centi_printf2_def newline_def NUL_def)
qed

lemma length_dec_le: "n < 10 ^ m \<Longrightarrow> 0 < m \<Longrightarrow> length (dec n) \<le> m"
proof (induction n arbitrary: m rule: dec.induct)
  case (1 n)
  show ?case
  proof (cases "n < 10")
    case True
    with "1.prems" show ?thesis by (subst dec.simps) simp
  next
    case False
    obtain m' where m: "m = Suc m'" using "1.prems"(2) by (cases m) auto
    from False "1.prems"(1) have "0 < m'" unfolding m by (cases m') auto
    moreover from "1.prems"(1) have "n div 10 < 10 ^ m'" unfolding m by auto
    ultimately have "length (dec (n div 10)) \<le> m'"
      using "1.IH" [OF False] by blast
    with False show ?thesis unfolding m by (subst dec.simps) simp
  qed
qed

lemma length_printf_d: "in_int k \<Longrightarrow> length (printf_d k) \<le> 11"
proof -
  assume "in_int k"
  then have "nat k < 10 ^ 10" "nat (- k) < 10 ^ 10"
    by (auto simp: in_int_def)
  then have "length (dec (nat k)) \<le> 10" "length (dec (nat (- k))) \<le> 10"
    by (simp_all add: length_dec_le)
  then show ?thesis by (simp add: printf_d_def)
qed

lemma store_fields_no_newline:
  assumes "storable ops e p"
  shows "newline \<notin> set (store_fields ops p) \<and> NUL \<notin> set (store_fields ops p)"
proof -
  have c: "comma \<noteq> newline" "comma \<noteq> NUL" by (simp_all add: comma_def newline_def NUL_def)
  from assms have "f_printf2 ops (price p) = centi_printf2 (text_cents (f_printf2 ops (price p)))"
    by (simp add: storable_def price_ok_def Let_def)
  with centi_printf2_plain [of "text_cents (f_printf2 ops (price p))"]
  have "newline \<notin> set (f_printf2 ops (price p)) \<and> NUL \<notin> set (f_printf2 ops (price p))"
    by simp
  with assms show ?thesis
    using printf_d_plain [of "quantity p"] printf_d_plain [of "min_stock p"] c
    by (simp add: storable_def field_ok_def store_fields_def price_tail_def)
qed

lemma store_fields_short:
  assumes "storable ops e p"
  shows "length (store_fields ops p) \<le> 254"
proof -
  from assms have "length (name p) \<le> 49" "length (id_c p) \<le> 9" "length (category p) \<le> 29"
    "length (date p) \<le> 10" "length (f_printf2 ops (price p)) \<le> 48"
    "length (printf_d (quantity p)) \<le> 11" "length (printf_d (min_stock p)) \<le> 11"
    by (simp_all add: storable_def field_ok_def price_ok_def Let_def ints_stored_def length_printf_d)
  then show ?thesis
    by (simp add: store_fields_def price_tail_def)
qed

lemma fgets_all_store:
  assumes "\<forall>p\<in>set ps. storable ops e p"
  shows "fgets_all (concat (map (store_line ops) ps)) = map (store_line ops) ps"
proof -
  have m: "map (store_line ops) ps = map (\<lambda>l. l @ [newline]) (map (store_fields ops) ps)"
    by (simp add: store_line_def)
  have ok: "\<forall>l\<in>set (map (store_fields ops) ps). newline \<notin> set l \<and> length l \<le> 254"
    using assms store_fields_no_newline [of ops e] store_fields_short [of ops e] by auto
  show ?thesis
    unfolding m by (rule fgets_all_lines [OF ok])
qed

lemma sscanf_prod_store_line:
  assumes "storable ops e p"
  shows "sscanf_prod ops (strip_newline (store_line ops p)) = Some (reread ops p)"
proof -
  from store_fields_no_newline [OF assms]
  have "strip_newline (store_fields ops p @ [newline]) = store_fields ops p"
    by (intro strip_newline_plain) simp_all
  then show ?thesis
    by (simp add: store_line_def sscanf_prod_store_fields [OF assms])
qed

lemma same_fields_reread:
  assumes "storable ops e p"
  shows "same_fields ops (1 / 200 + e) p (reread ops p)"
  using assms price_ok_close [of ops e p]
  by (simp add: same_fields_def storable_def reread_def)

text \<open>
  Claim C2, as amended. Take an inventory whose records are storable: name, id, category
  and date non-empty, within their widths and free of commas and newlines, quantity and
  threshold within \<open>int\<close>, and a C library that writes the price with \<open>%.2f\<close> as its value
  rounded to two decimals and reads that numeral back with \<open>%f\<close> to within \<open>e\<close>. Then
  \<open>save_inventory\<close> followed by \<open>load_inventory\<close> into a fresh inventory gives the same
  number of records, in the same order, each with the same name, id, category, quantity,
  threshold and date and with a price within the formatting precision of the saved one:
  at most 0.005 (the rounding of \<open>%.2f\<close>) plus \<open>e\<close>.
\<close>

theorem save_load_roundtrip:
  assumes "wf_invent iv" and "wf_invent fresh" and "data_writable w"
    and "\<forall>p\<in>set (live iv). storable ops e p"
  shows "fst (save_inventory ops iv w) = 1
       \<and> data_file (snd (save_inventory ops iv w)) = Some (concat (map (store_line ops) (live iv)))
       \<and> (\<exists>iv'. load_inventory ops fresh (snd (save_inventory ops iv w)) = Some (1, iv')
             \<and> product_count iv' = product_count iv
             \<and> list_all2 (same_fields ops (1 / 200 + e)) (live iv) (live iv'))"
proof -
  let ?content = "concat (map (store_line ops) (live iv))"
  let ?w' = "snd (save_inventory ops iv w)"
  let ?F = "\<lambda>l. sscanf_prod ops (strip_newline l)"
  have sv: "save_inventory ops iv w = (1, w\<lparr>data_file := Some ?content\<rparr>)"
    using assms(3) by (simp add: save_inventory_def)
  then have df: "data_file ?w' = Some ?content" by simp
  have pieces: "fgets_all ?content = map (store_line ops) (live iv)"
    by (rule fgets_all_store [OF assms(4)])
  have ints: "\<forall>l\<in>set (fgets_all ?content). ints_ok ops (strip_newline l)"
    unfolding pieces using assms(4) sscanf_prod_store_line [of ops e]
    by (auto simp: ints_ok_def storable_def ints_stored_def reread_def)
  have "List.map_filter ?F (fgets_all ?content) = List.map_filter ?F (map (store_line ops) (live iv))"
    by (simp only: pieces)
  also have "\<dots> = List.map_filter (\<lambda>p. ?F (store_line ops p)) (live iv)"
    by (rule map_filter_map)
  also have "\<dots> = map (reread ops) (live iv)"
    using assms(4) sscanf_prod_store_line [of ops e] by (intro map_filter_all_Some) simp
  finally have mf: "List.map_filter ?F (fgets_all ?content) = map (reread ops) (live iv)" .
  from assms(1) have len: "length (live iv) \<le> Max_c" and cnt: "length (live iv) = product_count iv"
    by (simp_all add: wf_invent_def live_def)
  from load_inventory_live [OF assms(2) df ints] obtain iv' where
    r: "load_inventory ops fresh ?w' = Some (1, iv')"
    and wf': "wf_invent iv'" and lv: "live iv' = take Max_c (map (reread ops) (live iv))"
    unfolding mf by blast
  from lv len have lv': "live iv' = map (reread ops) (live iv)" by simp
  from wf' have "length (live iv') = product_count iv'"
    by (simp add: wf_invent_def live_def)
  with lv' cnt have c: "product_count iv' = product_count iv" by simp
  have "list_all2 (same_fields ops (1 / 200 + e)) (live iv) (map (reread ops) (live iv))"
    using assms(4) same_fields_reread [of ops e] by (simp add: list.rel_map list_all2_same)
  with lv' have s: "list_all2 (same_fields ops (1 / 200 + e)) (live iv) (live iv')" by simp
  from r c s have "\<exists>iv'. load_inventory ops fresh ?w' = Some (1, iv')
             \<and> product_count iv' = product_count iv
             \<and> list_all2 (same_fields ops (1 / 200 + e)) (live iv) (live iv')"
    by blast
  with sv show ?thesis by simp
qed

theorem save_load_roundtrip_witness:
  "wf_invent (ex_invent [ex_prod ''Rice'' ''P001'' 10, ex_prod ''Palm oil'' ''P002'' (- 3)])
   \<and> wf_invent (ex_invent ([] :: int Prod list))
   \<and> data_writable (ex_world [])
   \<and> storable centi_ops 0 (ex_prod ''Rice'' ''P001'' 10)
   \<and> storable centi_ops 0 (ex_prod ''Palm oil'' ''P002'' (- 3))
   \<and> data_file (snd (save_inventory centi_ops
         (ex_invent [ex_prod ''Rice'' ''P001'' 10, ex_prod ''Palm oil'' ''P002'' (- 3)]) (ex_world [])))
       = Some (''Rice,P001,Food,10,500.00,5,2025-01-07'' @ [newline]
               @ ''Palm oil,P002,Food,-3,500.00,5,2025-01-07'' @ [newline])
   \<and> map_option (\<lambda>r. (fst r, live (snd r)))
        (load_inventory centi_ops (ex_invent [])
           (snd (save_inventory centi_ops
              (ex_invent [ex_prod ''Rice'' ''P001'' 10, ex_prod ''Palm oil'' ''P002'' (- 3)]) (ex_world []))))
       = Some (1, [ex_prod ''Rice'' ''P001'' 10, ex_prod ''Palm oil'' ''P002'' (- 3)])"
proof -
  let ?a = "ex_prod ''Rice'' ''P001'' 10" and ?b = "ex_prod ''Palm oil'' ''P002'' (- 3)"
  let ?iv = "ex_invent [?a, ?b]"
  let ?w' = "snd (save_inventory centi_ops ?iv (ex_world []))"
  have h1: "wf_invent ?iv" by (simp add: wf_ex_invent Max_c_def)
  have h2: "wf_invent (ex_invent ([] :: int Prod list))" by (simp add: wf_ex_invent)
  have h3: "data_writable (ex_world [])" by (simp add: ex_world_def)
  have t: "printf_d 10 = ''10''" "printf_d (- 3) = ''-3''" "printf_d 5 = ''5''"
    "centi_printf2 50000 = ''500.00''"
    by (simp_all add: text_eval)
  have tc: "text_cents ''500.00'' = 50000"
    by (simp add: text_cents_def stored_def scan_eval)
  have fa: "store_fields centi_ops ?a = ''Rice,P001,Food,10,500.00,5,2025-01-07''"
    and fb: "store_fields centi_ops ?b = ''Palm oil,P002,Food,-3,500.00,5,2025-01-07''"
    by (simp_all add: store_fields_def price_tail_def ex_prod_def centi_ops_def t comma_def)
  have pa: "price_ok centi_ops 0 ?a" and pb: "price_ok centi_ops 0 ?b"
    by (simp_all add: ex_prod_def price_ok_def price_tail_def t tc scan_f_def centi_ops_def
        comma_def scan_eval)
  have sa: "storable centi_ops 0 ?a"
    unfolding storable_def using pa
    by (simp add: ex_prod_def field_ok_def ints_stored_def in_int_def comma_def newline_def NUL_def)
  have sb: "storable centi_ops 0 ?b"
    unfolding storable_def using pb
    by (simp add: ex_prod_def field_ok_def ints_stored_def in_int_def comma_def newline_def NUL_def)
  have h4: "\<forall>p\<in>set (live ?iv). storable centi_ops 0 p"
    using sa sb by simp
  have saved: "data_file ?w'
       = Some (''Rice,P001,Food,10,500.00,5,2025-01-07'' @ [newline]
               @ ''Palm oil,P002,Food,-3,500.00,5,2025-01-07'' @ [newline])"
    using h3 by (simp add: save_inventory_def store_line_def fa fb)
  from save_load_roundtrip [OF h1 h2 h3 h4] obtain iv' where
    ld: "load_inventory centi_ops (ex_invent []) ?w' = Some (1, iv')"
    and same: "list_all2 (same_fields centi_ops (1 / 200 + 0)) (live ?iv) (live iv')"
    by blast
  from same obtain a' b' where l: "live iv' = [a', b']"
    and a': "same_fields centi_ops (1 / 200) ?a a'" and b': "same_fields centi_ops (1 / 200) ?b b'"
    by (auto simp: list_all2_Cons1)
  have exact: "q = p" if "same_fields centi_ops (1 / 200) p q" for p q :: "int Prod"
  proof -
    from that have "\<bar>real_of_int (price q) / 100 - real_of_int (price p) / 100\<bar> \<le> 1 / 200"
      by (simp add: same_fields_def centi_ops_def)
    then have "\<bar>real_of_int (price q - price p)\<bar> \<le> 1 / 2" by (simp add: field_simps)
    then have "\<bar>price q - price p\<bar> < 1" by linarith
    then have "price q = price p" by simp
    with that show ?thesis by (simp add: same_fields_def)
  qed
  from exact [OF a'] exact [OF b'] l have "live iv' = [?a, ?b]" by simp
  with ld have "map_option (\<lambda>r. (fst r, live (snd r))) (load_inventory centi_ops (ex_invent []) ?w')
      = Some (1, [?a, ?b])"
    by simp
  with h1 h2 h3 sa sb saved show ?thesis by blast
qed

text \<open>
  A comma inside a name shifts every field behind it: the record is written but does not
  load.
\<close>

theorem save_load_comma_counterexample:
  "product_count (ex_invent [ex_prod ''Rice,white'' ''P001'' 10]) = 1
   \<and> data_file (snd (save_inventory centi_ops (ex_invent [ex_prod ''Rice,white'' ''P001'' 10]) (ex_world [])))
       = Some (''Rice,white,P001,Food,10,500.00,5,2025-01-07'' @ [newline])
   \<and> map_option (\<lambda>r. (fst r, product_count (snd r), live (snd r)))
        (load_inventory centi_ops (ex_invent [])
           (snd (save_inventory centi_ops (ex_invent [ex_prod ''Rice,white'' ''P001'' 10]) (ex_world []))))
       = Some (1, 0, [])"
proof -
  let ?iv = "ex_invent [ex_prod ''Rice,white'' ''P001'' 10]"
  let ?line = "''Rice,white,P001,Food,10,500.00,5,2025-01-07''"
  let ?w' = "snd (save_inventory centi_ops ?iv (ex_world []))"
  have t: "printf_d 10 = ''10''" "printf_d 5 = ''5''" "centi_printf2 50000 = ''500.00''"
    by (simp_all add: text_eval)
  have saved: "data_file ?w' = Some (?line @ [newline])"
    by (simp add: save_inventory_def store_line_def store_fields_def price_tail_def ex_prod_def
        ex_world_def centi_ops_def t comma_def)
  have nl: "newline \<notin> set ?line" by (simp add: newline_def)
  have "fgets 256 (?line @ newline # []) = Some (?line @ [newline], [])"
    using nl by (rule fgets_line) simp
  then have chunks: "fgets_all (?line @ [newline]) = [?line @ [newline]]"
    by (subst fgets_all.simps) (simp add: fgets_all_Nil)
  have "NUL \<notin> set ?line" by (simp add: NUL_def)
  with nl have strip: "strip_newline (?line @ [newline]) = ?line"
    by (rule strip_newline_plain)
  have none: "sscanf_prod centi_ops ?line = None"
    by (simp add: sscanf_eval)
  have ints: "\<forall>l\<in>set (fgets_all (?line @ [newline])). ints_ok centi_ops (strip_newline l)"
    unfolding chunks by (simp only: list.set ball_simps strip ints_ok_def none option.case)
  have wf0: "wf_invent (ex_invent ([] :: int Prod list))" by (simp add: wf_ex_invent)
  have mf: "List.map_filter (\<lambda>l. sscanf_prod centi_ops (strip_newline l)) (fgets_all (?line @ [newline])) = []"
    by (simp only: chunks map_filter_simps strip none option.case)
  from load_inventory_live [OF wf0 saved ints] obtain iv' where
    ld: "load_inventory centi_ops (ex_invent []) ?w' = Some (1, iv')"
    and "wf_invent iv'" and lv: "live iv' = []"
    unfolding mf by auto
  then have "product_count iv' = 0"
    by (auto simp: wf_invent_def live_def Max_c_def)
  with ld lv have "map_option (\<lambda>r. (fst r, product_count (snd r), live (snd r)))
        (load_inventory centi_ops (ex_invent []) ?w') = Some (1, 0, [])"
    by simp
  with saved show ?thesis by simp
qed

end
